theory Spec2Isabelle
  imports Main "HOL-Library.Sublist" "HOL-Library.List_Lexorder" "HOL-Library.Char_ord"
    "HOL-Library.Monad_Syntax"
begin

section \<open>Merging audio transcripts into a chat history\<close>

text \<open>
  This theory embeds \<^verbatim>\<open>src/merge_transcripts.py\<close>: the two timestamp parsers, the
  speaker resolver and the merge itself.

  A Python \<^verbatim>\<open>str\<close> is modelled as a \<^typ>\<open>string\<close> whose characters are the code points
  0 to 255. On that range the character classes of the Python library are the finite tables
  written out below: \<^verbatim>\<open>\d\<close> is the ten ASCII digits, \<^verbatim>\<open>\w\<close>, \<^verbatim>\<open>str.lower\<close>,
  \<^verbatim>\<open>str.isspace\<close> and the line boundaries of \<^verbatim>\<open>str.splitlines\<close> are as the interpreter
  defines them for these code points.
\<close>

subsection \<open>Errors\<close>

text \<open>
  The exceptions the program can raise: \<^verbatim>\<open>ValueError\<close> from \<^verbatim>\<open>datetime.strptime\<close>,
  \<^verbatim>\<open>OSError\<close> from \<^verbatim>\<open>open\<close> and from the write, tagged with the file concerned,
  \<^verbatim>\<open>YAMLError\<close> from \<^verbatim>\<open>yaml.safe_load\<close>, and \<^verbatim>\<open>AttributeError\<close> and
  \<^verbatim>\<open>TypeError\<close> from a speaker mapping that is not a dictionary of strings.
\<close>

datatype file_ref = SettingsFile | ChatFile | TranscriptFile string | OutputFile

datatype error = ValueError | OSError file_ref | YAMLError | AttributeError | TypeError

subsection \<open>Characters and strings\<close>

definition is_digit :: "char \<Rightarrow> bool" where
  "is_digit c = (c \<in> set ''0123456789'')"

definition digit_val :: "char \<Rightarrow> nat" where
  "digit_val c = of_char c - 48"

text \<open>\<^verbatim>\<open>int(s)\<close> on a string of digits.\<close>

definition int_of_digits :: "string \<Rightarrow> nat" where
  "int_of_digits s = foldl (\<lambda>n c. 10 * n + digit_val c) 0 s"

text \<open>\<^verbatim>\<open>\w\<close> of a \<^verbatim>\<open>str\<close> pattern: the underscore and every alphanumeric character.\<close>

definition is_word :: "char \<Rightarrow> bool" where
  "is_word c = (let n = (of_char c :: nat) in
     (48 \<le> n \<and> n \<le> 57) \<or> (65 \<le> n \<and> n \<le> 90) \<or> n = 95 \<or> (97 \<le> n \<and> n \<le> 122) \<or>
     n \<in> {170, 178, 179, 181, 185, 186, 188, 189, 190} \<or>
     (192 \<le> n \<and> n \<le> 214) \<or> (216 \<le> n \<and> n \<le> 246) \<or> (248 \<le> n \<and> n \<le> 255))"

text \<open>\<^verbatim>\<open>str.lower\<close>, one character at a time.\<close>

definition lower_char :: "char \<Rightarrow> char" where
  "lower_char c = (let n = (of_char c :: nat) in
     if (65 \<le> n \<and> n \<le> 90) \<or> (192 \<le> n \<and> n \<le> 214) \<or> (216 \<le> n \<and> n \<le> 222)
     then char_of (n + 32) else c)"

definition lower :: "string \<Rightarrow> string" where
  "lower s = map lower_char s"

text \<open>\<^verbatim>\<open>str.isspace\<close> of one character, as used by \<^verbatim>\<open>str.strip\<close>.\<close>

definition is_space :: "char \<Rightarrow> bool" where
  "is_space c = ((of_char c :: nat) \<in> {9, 10, 11, 12, 13, 28, 29, 30, 31, 32, 133, 160})"

definition strip :: "string \<Rightarrow> string" where
  "strip s = rev (dropWhile is_space (rev (dropWhile is_space s)))"

text \<open>The characters at which \<^verbatim>\<open>str.splitlines\<close> ends a line.\<close>

definition is_linebreak :: "char \<Rightarrow> bool" where
  "is_linebreak c = ((of_char c :: nat) \<in> {10, 11, 12, 13, 28, 29, 30, 133})"

text \<open>
  \<^verbatim>\<open>str.splitlines\<close>: a line ends at a line boundary, the pair carriage return, line
  feed counts as one boundary, and there is no empty line after a final boundary.
  \<open>splitlines_acc\<close> carries the characters of the current line, in reverse.
\<close>

fun splitlines_acc :: "string \<Rightarrow> string \<Rightarrow> string list" where
  "splitlines_acc acc [] = (if acc = [] then [] else [rev acc])"
| "splitlines_acc acc (c # cs) =
     (if is_linebreak c then
        (if c = CHR 0x0D then
           (case cs of
              d # ds \<Rightarrow> (if d = CHR 0x0A then rev acc # splitlines_acc [] ds
                         else rev acc # splitlines_acc [] cs)
            | [] \<Rightarrow> rev acc # splitlines_acc [] cs)
         else rev acc # splitlines_acc [] cs)
      else splitlines_acc (c # acc) cs)"

definition splitlines :: "string \<Rightarrow> string list" where
  "splitlines s = splitlines_acc [] s"

text \<open>\<^verbatim>\<open>"\n".join(lines)\<close>.\<close>

fun join_lines :: "string list \<Rightarrow> string" where
  "join_lines [] = []"
| "join_lines [l] = l"
| "join_lines (l # m # ls) = l @ CHR 0x0A # join_lines (m # ls)"

subsection \<open>Regular expressions\<close>

text \<open>
  A pattern is a function that matches at the beginning of a string and returns what the
  source reads from the match. \<open>digits_n\<close> is \<^verbatim>\<open>\d{n}\<close>, \<open>lit\<close> one literal character,
  \<open>lits\<close> a literal string; each returns the rest of the input behind the match.
\<close>

definition digits_n :: "nat \<Rightarrow> string \<Rightarrow> (string \<times> string) option" where
  "digits_n n s = (if n \<le> length s \<and> list_all is_digit (take n s)
                   then Some (take n s, drop n s) else None)"

definition lit :: "char \<Rightarrow> string \<Rightarrow> string option" where
  "lit c s = (case s of [] \<Rightarrow> None | d # ds \<Rightarrow> if d = c then Some ds else None)"

definition lits :: "string \<Rightarrow> string \<Rightarrow> string option" where
  "lits w s = (if prefix w s then Some (drop (length w) s) else None)"

definition one_of :: "string \<Rightarrow> string \<Rightarrow> string option" where
  "one_of cs s = (case s of [] \<Rightarrow> None | d # ds \<Rightarrow> if d \<in> set cs then Some ds else None)"

text \<open>
  \<open>first_some\<close> is the backtracking of the matcher: the alternatives are tried in order
  and the first that succeeds is the match.
\<close>

fun first_some :: "'a option list \<Rightarrow> 'a option" where
  "first_some [] = None"
| "first_some (Some r # _) = Some r"
| "first_some (None # rs) = first_some rs"

text \<open>
  \<open>greedy_plus P k\<close> is \<^verbatim>\<open>X+\<close> for a character class \<open>P\<close>, followed by the rest \<open>k\<close> of the
  pattern: the longest run of \<open>P\<close> is tried first, then each shorter one, down to one
  character. \<open>k\<close> receives the characters matched and the input behind them.
\<close>

definition greedy_plus :: "(char \<Rightarrow> bool) \<Rightarrow> (string \<Rightarrow> string \<Rightarrow> 'a option) \<Rightarrow> string \<Rightarrow> 'a option" where
  "greedy_plus P k s =
     first_some (map (\<lambda>n. k (take n s) (drop n s)) (rev [1 ..< Suc (length (takeWhile P s))]))"

text \<open>
  \<^verbatim>\<open>re.search\<close>: the pattern is tried at every position, from the left, the end of the
  string included.
\<close>

fun re_search :: "(string \<Rightarrow> 'a option) \<Rightarrow> string \<Rightarrow> 'a option" where
  "re_search p [] = p []"
| "re_search p (c # cs) = (case p (c # cs) of Some r \<Rightarrow> Some r | None \<Rightarrow> re_search p cs)"

subsection \<open>Dates and times\<close>

record datetime =
  year :: nat
  month :: nat
  day :: nat
  hour :: nat
  minute :: nat
  second :: nat

definition is_leap :: "nat \<Rightarrow> bool" where
  "is_leap y = (y mod 4 = 0 \<and> (y mod 100 \<noteq> 0 \<or> y mod 400 = 0))"

definition days_in_month :: "nat \<Rightarrow> nat \<Rightarrow> nat" where
  "days_in_month y m =
     (if m = 2 then (if is_leap y then 29 else 28)
      else if m \<in> {4, 6, 9, 11} then 30 else 31)"

text \<open>
  \<^verbatim>\<open>datetime.strptime\<close> on the fields the two parsers hand it: groups of ASCII digits of
  the width their patterns fix. It raises \<^verbatim>\<open>ValueError\<close> when a field is outside the
  calendar (year 0, month 13, 30 February, hour 24, minute 60, second 60), and returns the
  point in time otherwise.
\<close>

definition mk_datetime :: "nat \<Rightarrow> nat \<Rightarrow> nat \<Rightarrow> nat \<Rightarrow> nat \<Rightarrow> nat \<Rightarrow> error + datetime" where
  "mk_datetime y mo d h mi s =
     (if 1 \<le> y \<and> y \<le> 9999 \<and> 1 \<le> mo \<and> mo \<le> 12 \<and> 1 \<le> d \<and> d \<le> days_in_month y mo \<and>
         h \<le> 23 \<and> mi \<le> 59 \<and> s \<le> 59
      then Inr \<lparr>year = y, month = mo, day = d, hour = h, minute = mi, second = s\<rparr>
      else Inl ValueError)"

text \<open>The format \<^verbatim>\<open>"%Y-%m-%d %H:%M:%S"\<close>.\<close>

definition strptime_date_time :: "string \<Rightarrow> string \<Rightarrow> string \<Rightarrow> string \<Rightarrow> string \<Rightarrow> string \<Rightarrow> error + datetime" where
  "strptime_date_time y mo d h mi s =
     mk_datetime (int_of_digits y) (int_of_digits mo) (int_of_digits d)
       (int_of_digits h) (int_of_digits mi) (int_of_digits s)"

text \<open>The format \<^verbatim>\<open>"%H:%M"\<close>: the date defaults to 1 January 1900, the second to 0.\<close>

definition strptime_hour_minute :: "string \<Rightarrow> string \<Rightarrow> error + datetime" where
  "strptime_hour_minute h mi = mk_datetime 1900 1 1 (int_of_digits h) (int_of_digits mi) 0"

subsection \<open>The timestamp of a transcript file name\<close>

text \<open>
  The pattern \<^verbatim>\<open>(\d{4}-\d{2}-\d{2})[ _-](\d{2})-(\d{2})(?:-(\d{2}))?\<close>, matched at the
  beginning of a string. The groups are returned with the date already cut into its three
  fields; the optional group is \<open>None\<close> when it does not take part in the match.
\<close>

definition date_pattern :: "string \<Rightarrow> ((string \<times> string \<times> string) \<times> string) option" where
  "date_pattern s = do {
     (y, s1) \<leftarrow> digits_n 4 s;
     s2 \<leftarrow> lit CHR ''-'' s1;
     (mo, s3) \<leftarrow> digits_n 2 s2;
     s4 \<leftarrow> lit CHR ''-'' s3;
     (d, s5) \<leftarrow> digits_n 2 s4;
     Some ((y, mo, d), s5)
   }"

definition seconds_group :: "string \<Rightarrow> string option" where
  "seconds_group s = do {
     s1 \<leftarrow> lit CHR ''-'' s;
     (sec, s2) \<leftarrow> digits_n 2 s1;
     Some sec
   }"

definition timestamp_pattern :: "string \<Rightarrow> ((string \<times> string \<times> string) \<times> string \<times> string \<times> string option) option" where
  "timestamp_pattern s = do {
     (date_part, s1) \<leftarrow> date_pattern s;
     s2 \<leftarrow> one_of '' _-'' s1;
     (h, s3) \<leftarrow> digits_n 2 s2;
     s4 \<leftarrow> lit CHR ''-'' s3;
     (mi, s5) \<leftarrow> digits_n 2 s4;
     Some (date_part, h, mi, seconds_group s5)
   }"

definition parse_transcript_timestamp :: "string \<Rightarrow> datetime option" where
  "parse_transcript_timestamp filename =
     (case re_search timestamp_pattern filename of
        None \<Rightarrow> None
      | Some ((y, mo, d), h, mi, sec) \<Rightarrow>
          (let sec' = (case sec of None \<Rightarrow> ''00'' | Some s \<Rightarrow> s) in
           case strptime_date_time y mo d h mi sec' of
             Inl e \<Rightarrow> None
           | Inr ts \<Rightarrow> Some ts))"

subsection \<open>The time of a chat line\<close>

text \<open>
  The pattern \<^verbatim>\<open>\[(\d{1,2}:\d{2})\]\<close> under \<^verbatim>\<open>re.match\<close>, so at the beginning of the
  line only: two digits for the hour are tried first, then one.
\<close>

definition chat_time_rest :: "string \<Rightarrow> string \<Rightarrow> (string \<times> string) option" where
  "chat_time_rest h s = do {
     s1 \<leftarrow> lit CHR '':'' s;
     (mi, s2) \<leftarrow> digits_n 2 s1;
     s3 \<leftarrow> lit CHR '']'' s2;
     Some (h, mi)
   }"

definition chat_time_pattern :: "string \<Rightarrow> (string \<times> string) option" where
  "chat_time_pattern s = do {
     s1 \<leftarrow> lit CHR ''['' s;
     first_some [do { (h, s2) \<leftarrow> digits_n 2 s1; chat_time_rest h s2 },
                 do { (h, s2) \<leftarrow> digits_n 1 s1; chat_time_rest h s2 }]
   }"

text \<open>
  The call of \<^verbatim>\<open>strptime\<close> is not guarded here: its \<^verbatim>\<open>ValueError\<close> leaves the function.
\<close>

definition parse_chat_line_time :: "string \<Rightarrow> error + datetime option" where
  "parse_chat_line_time line =
     (case chat_time_pattern line of
        None \<Rightarrow> Inr None
      | Some (h, mi) \<Rightarrow>
          (case strptime_hour_minute h mi of
             Inl e \<Rightarrow> Inl e
           | Inr t \<Rightarrow> Inr (Some t)))"

subsection \<open>The speaker of a transcript\<close>

text \<open>
  The mapping is declared a \<^verbatim>\<open>dict\<close> from strings to strings, but it is what the
  settings file holds under \<^verbatim>\<open>speaker_mapping\<close>, and nothing checks it. It is modelled
  as it can be loaded: a value that is no dictionary, or a dictionary, read in insertion
  order, so an association list. A key is a string, a byte string (it has
  \<^verbatim>\<open>lower\<close>, and the test \<^verbatim>\<open>in\<close> raises \<^verbatim>\<open>TypeError\<close>), or another value (it has no
  \<^verbatim>\<open>lower\<close>: \<^verbatim>\<open>AttributeError\<close>). A value of the dictionary is modelled by the text
  that the format string of the header makes of it, for a string the string itself.
\<close>

datatype key = StrKey string | BytesKey | OtherKey

datatype mapping_value = NotADict | Dict "(key \<times> string) list"

text \<open>A mapping of the declared type.\<close>

definition str_dict :: "(string \<times> string) list \<Rightarrow> mapping_value" where
  "str_dict m = Dict (map (\<lambda>(k, v). (StrKey k, v)) m)"

text \<open>
  \<open>mapping_loop\<close> is the \<^verbatim>\<open>for\<close> loop with its early return: \<open>Inr (Some val)\<close> when it
  returns \<open>val\<close>, \<open>Inr None\<close> when it ends. \<^verbatim>\<open>key.lower() in lower_name\<close> is
  \<^const>\<open>sublist\<close>.
\<close>

fun mapping_loop :: "string \<Rightarrow> (key \<times> string) list \<Rightarrow> error + string option" where
  "mapping_loop lower_name [] = Inr None"
| "mapping_loop lower_name ((StrKey key, val) # rest) =
     (if sublist (lower key) lower_name then Inr (Some val) else mapping_loop lower_name rest)"
| "mapping_loop lower_name ((BytesKey, val) # rest) = Inl TypeError"
| "mapping_loop lower_name ((OtherKey, val) # rest) = Inl AttributeError"

text \<open>
  The pattern \<^verbatim>\<open>\d{4}-\d{2}-\d{2}_[\d-]+_(.+)\.txt\<close>; the dot matches every character
  but the line feed.
\<close>

definition dated_name_pattern :: "string \<Rightarrow> string option" where
  "dated_name_pattern s = do {
     (date_part, s1) \<leftarrow> date_pattern s;
     s2 \<leftarrow> lit CHR ''_'' s1;
     greedy_plus (\<lambda>c. is_digit c \<or> c = CHR ''-'')
       (\<lambda>run s3. do {
          s4 \<leftarrow> lit CHR ''_'' s3;
          greedy_plus (\<lambda>c. c \<noteq> CHR 0x0A)
            (\<lambda>name s5. do { s6 \<leftarrow> lits ''.txt'' s5; Some name }) s4
        }) s2
   }"

text \<open>
  The pattern \<^verbatim>\<open>_(\w+)\.txt$\<close>; the dollar matches at the end of the string and before
  a line feed that ends the string.
\<close>

definition loose_name_pattern :: "string \<Rightarrow> string option" where
  "loose_name_pattern s = do {
     s1 \<leftarrow> lit CHR ''_'' s;
     greedy_plus is_word
       (\<lambda>name s2. do {
          s3 \<leftarrow> lits ''.txt'' s2;
          if s3 = [] \<or> s3 = [CHR 0x0A] then Some name else None
        }) s1
   }"

text \<open>\<^verbatim>\<open>mapping.items()\<close> raises \<^verbatim>\<open>AttributeError\<close> on a value that is no dictionary.\<close>

definition infer_speaker :: "string \<Rightarrow> mapping_value \<Rightarrow> error + string" where
  "infer_speaker filename mapping =
     (let lower_name = lower filename in
      case mapping of
        NotADict \<Rightarrow> Inl AttributeError
      | Dict items \<Rightarrow>
          (case mapping_loop lower_name items of
             Inl e \<Rightarrow> Inl e
           | Inr (Some val) \<Rightarrow> Inr val
           | Inr None \<Rightarrow>
               (case re_search dated_name_pattern filename of
                  Some name \<Rightarrow> Inr name
                | None \<Rightarrow>
                    (case re_search loose_name_pattern filename of
                       Some name \<Rightarrow> Inr name
                     | None \<Rightarrow> Inr ''Unbekannt''))))"

subsection \<open>Arithmetic on points in time\<close>

text \<open>
  \<^verbatim>\<open>datetime.replace(year=.., month=.., day=..)\<close> builds a new value and checks it as the
  constructor does.
\<close>

definition replace_date :: "datetime \<Rightarrow> nat \<Rightarrow> nat \<Rightarrow> nat \<Rightarrow> error + datetime" where
  "replace_date t y mo d = mk_datetime y mo d (hour t) (minute t) (second t)"

definition days_before_year :: "nat \<Rightarrow> int" where
  "days_before_year y = (let p = int y - 1 in p * 365 + p div 4 - p div 100 + p div 400)"

definition days_before_month :: "nat \<Rightarrow> nat \<Rightarrow> int" where
  "days_before_month y m = int (sum_list (map (days_in_month y) [1 ..< m]))"

definition toordinal :: "datetime \<Rightarrow> int" where
  "toordinal t = days_before_year (year t) + days_before_month (year t) (month t) + int (day t)"

definition seconds_of_day :: "datetime \<Rightarrow> nat" where
  "seconds_of_day t = hour t * 3600 + minute t * 60 + second t"

text \<open>\<^verbatim>\<open>(a - b).total_seconds()\<close>, a whole number since there are no microseconds.\<close>

definition total_seconds :: "datetime \<Rightarrow> datetime \<Rightarrow> int" where
  "total_seconds a b =
     (toordinal a - toordinal b) * 86400 + (int (seconds_of_day a) - int (seconds_of_day b))"

text \<open>\<^verbatim>\<open>strftime('%H:%M')\<close>.\<close>

definition two_digits :: "nat \<Rightarrow> string" where
  "two_digits n = [char_of (48 + n div 10 mod 10), char_of (48 + n mod 10)]"

definition strftime_hm :: "datetime \<Rightarrow> string" where
  "strftime_hm t = two_digits (hour t) @ '':'' @ two_digits (minute t)"

subsection \<open>The files of one run\<close>

text \<open>
  What the program reads and writes, at the four paths it is given. The output path is
  taken to be none of the paths read.

  \<open>settings\<close> is what the settings step (lines 88 to 93) meets: no path or no file; a file
  that cannot be opened or read; a file that \<^verbatim>\<open>yaml.safe_load\<close> rejects; a document that
  is no dictionary; a dictionary without the key \<^verbatim>\<open>speaker_mapping\<close>; a dictionary with
  that key and its value.
\<close>

datatype settings_file =
    NoSettingsFile
  | UnreadableSettings
  | InvalidYaml
  | NotADictDocument
  | NoSpeakerMapping
  | SpeakerMapping mapping_value

text \<open>
  What the write of line 138 and 139 does. \<^verbatim>\<open>open(output_path, "w")\<close> fails and leaves
  the file as it was, or it empties the file; then the write goes through, or it fails and
  leaves in the file what had reached it.
\<close>

datatype write_outcome = Written | OpenFails | WriteFails string

text \<open>
  \<open>chat_file\<close> is the text that reading the chat file returns, or \<open>None\<close> when it cannot
  be opened or read. \<open>transcript_dir\<close> is the list of the names in the transcript
  directory, or \<open>None\<close> when the directory cannot be read; \<open>transcript_files\<close> gives the
  text of an entry, or \<open>None\<close> when it cannot be opened or read. \<open>output_file\<close> is the
  content at the output path (\<open>None\<close>: no file yet), and \<open>output_write\<close> is what a write to
  it will do.
\<close>

record files =
  settings :: settings_file
  chat_file :: "string option"
  transcript_dir :: "string list option"
  transcript_files :: "string \<Rightarrow> string option"
  output_file :: "string option"
  output_write :: write_outcome

record transcript =
  path :: string
  timestamp :: datetime

text \<open>
  \<^verbatim>\<open>transcript_dir.glob("*.txt")\<close>: the entries whose name ends in \<^verbatim>\<open>.txt\<close>. The
  library's \<^verbatim>\<open>glob\<close> yields nothing, and raises nothing, for a directory that it
  cannot read.
\<close>

definition glob_txt :: "string list option \<Rightarrow> string list" where
  "glob_txt d = (case d of None \<Rightarrow> [] | Some names \<Rightarrow> filter (suffix ''.txt'') names)"

text \<open>
  Python compares two \<^verbatim>\<open>datetime\<close> values field by field, from the year down; the key
  below, under the lexicographic order of lists, is that comparison.
\<close>

definition datetime_key :: "datetime \<Rightarrow> nat list" where
  "datetime_key t = [year t, month t, day t, hour t, minute t, second t]"

definition new_transcript :: "string \<Rightarrow> transcript option" where
  "new_transcript name =
     (case parse_transcript_timestamp name of
        None \<Rightarrow> None
      | Some ts \<Rightarrow> Some \<lparr>path = name, timestamp = ts\<rparr>)"

text \<open>
  Lines 95 to 101: the paths are sorted by name, those with a timestamp are kept, and the
  list is sorted by timestamp. Both sorts are stable, as Python's are.
\<close>

definition load_transcripts :: "string list option \<Rightarrow> transcript list" where
  "load_transcripts d =
     sort_key (\<lambda>t. datetime_key (timestamp t)) (List.map_filter new_transcript (sort (glob_txt d)))"

subsection \<open>The merge\<close>

text \<open>
  The source appends to one list of lines. The model appends items that record where
  their lines come from: a chat line, or the block of one transcript (its header line and
  the lines of its text). \<open>result_lines\<close> is the list of lines of the source.
\<close>

datatype out_item = ChatLine string | Block transcript "string list"

fun item_lines :: "out_item \<Rightarrow> string list" where
  "item_lines (ChatLine l) = [l]"
| "item_lines (Block t ls) = ls"

definition result_lines :: "out_item list \<Rightarrow> string list" where
  "result_lines its = concat (map item_lines its)"

definition header_line :: "string \<Rightarrow> datetime \<Rightarrow> string" where
  "header_line speaker t = ''[Sprecher: '' @ speaker @ '' | Audio: '' @ strftime_hm t @ '']''"

definition body_lines :: "string \<Rightarrow> string list" where
  "body_lines content = (let text = strip content in if text \<noteq> [] then splitlines text else [])"

text \<open>
  The four statements that emit one transcript: resolve the speaker, append the header
  with the time \<open>shown\<close>, open and read the file, append the lines of its text.
\<close>

definition emit_transcript :: "(string \<Rightarrow> string option) \<Rightarrow> mapping_value \<Rightarrow> transcript \<Rightarrow> datetime \<Rightarrow> error + out_item" where
  "emit_transcript tfiles mapping t shown =
     (case infer_speaker (path t) mapping of
        Inl e \<Rightarrow> Inl e
      | Inr speaker \<Rightarrow>
          (case tfiles (path t) of
             None \<Rightarrow> Inl (OSError (TranscriptFile (path t)))
           | Some content \<Rightarrow> Inr (Block t (header_line speaker shown # body_lines content))))"

text \<open>
  The \<^verbatim>\<open>while\<close> loop at one chat line. The cursor \<^verbatim>\<open>idx\<close> of the source is the list
  of the transcripts from the cursor on; the loop returns the blocks it emitted and the
  transcripts left.
\<close>

fun consume :: "(string \<Rightarrow> string option) \<Rightarrow> mapping_value \<Rightarrow> datetime \<Rightarrow> transcript list \<Rightarrow> error + (out_item list \<times> transcript list)" where
  "consume tfiles mapping line_time [] = Inr ([], [])"
| "consume tfiles mapping line_time (t # ts) =
     (case replace_date (timestamp t) (year line_time) (month line_time) (day line_time) of
        Inl e \<Rightarrow> Inl e
      | Inr t_time \<Rightarrow>
          if \<bar>total_seconds t_time line_time\<bar> \<le> 60 then
            (case emit_transcript tfiles mapping t t_time of
               Inl e \<Rightarrow> Inl e
             | Inr b \<Rightarrow>
                 (case consume tfiles mapping line_time ts of
                    Inl e \<Rightarrow> Inl e
                  | Inr (bs, rest) \<Rightarrow> Inr (b # bs, rest)))
          else Inr ([], t # ts))"

text \<open>The \<^verbatim>\<open>for\<close> loop over the chat lines.\<close>

fun walk :: "(string \<Rightarrow> string option) \<Rightarrow> mapping_value \<Rightarrow> string list \<Rightarrow> transcript list \<Rightarrow> error + (out_item list \<times> transcript list)" where
  "walk tfiles mapping [] ts = Inr ([], ts)"
| "walk tfiles mapping (line # lines) ts =
     (case parse_chat_line_time line of
        Inl e \<Rightarrow> Inl e
      | Inr None \<Rightarrow>
          (case walk tfiles mapping lines ts of
             Inl e \<Rightarrow> Inl e
           | Inr (its, rest) \<Rightarrow> Inr (ChatLine line # its, rest))
      | Inr (Some line_time) \<Rightarrow>
          (case consume tfiles mapping line_time ts of
             Inl e \<Rightarrow> Inl e
           | Inr (bs, ts') \<Rightarrow>
               (case walk tfiles mapping lines ts' of
                  Inl e \<Rightarrow> Inl e
                | Inr (its, rest) \<Rightarrow> Inr (ChatLine line # bs @ its, rest))))"

text \<open>The last loop: the transcripts left are appended, each under its own time.\<close>

fun append_remaining :: "(string \<Rightarrow> string option) \<Rightarrow> mapping_value \<Rightarrow> transcript list \<Rightarrow> error + out_item list" where
  "append_remaining tfiles mapping [] = Inr []"
| "append_remaining tfiles mapping (t # ts) =
     (case emit_transcript tfiles mapping t (timestamp t) of
        Inl e \<Rightarrow> Inl e
      | Inr b \<Rightarrow>
          (case append_remaining tfiles mapping ts of
             Inl e \<Rightarrow> Inl e
           | Inr bs \<Rightarrow> Inr (b # bs)))"

text \<open>
  The settings step, lines 88 to 93: the mapping stays empty unless the file holds a
  dictionary with the key \<^verbatim>\<open>speaker_mapping\<close>; the errors of \<^verbatim>\<open>open\<close> and of
  \<^verbatim>\<open>yaml.safe_load\<close> are not caught.
\<close>

definition load_settings :: "settings_file \<Rightarrow> error + mapping_value" where
  "load_settings sf =
     (case sf of
        NoSettingsFile \<Rightarrow> Inr (Dict [])
      | UnreadableSettings \<Rightarrow> Inl (OSError SettingsFile)
      | InvalidYaml \<Rightarrow> Inl YAMLError
      | NotADictDocument \<Rightarrow> Inr (Dict [])
      | NoSpeakerMapping \<Rightarrow> Inr (Dict [])
      | SpeakerMapping v \<Rightarrow> Inr v)"

text \<open>Lines 95 to 136: everything between the settings step and the write.\<close>

definition merge_items :: "files \<Rightarrow> mapping_value \<Rightarrow> error + out_item list" where
  "merge_items fs mapping =
     (let transcripts = load_transcripts (transcript_dir fs) in
      case chat_file fs of
        None \<Rightarrow> Inl (OSError ChatFile)
      | Some content \<Rightarrow>
          (case walk (transcript_files fs) mapping (splitlines content) transcripts of
             Inl e \<Rightarrow> Inl e
           | Inr (its, rest) \<Rightarrow>
               (case append_remaining (transcript_files fs) mapping rest of
                  Inl e \<Rightarrow> Inl e
                | Inr tail \<Rightarrow> Inr (its @ tail))))"

text \<open>Lines 138 and 139: the write, the last statement.\<close>

definition write_output :: "files \<Rightarrow> string \<Rightarrow> error option \<times> files" where
  "write_output fs text =
     (case output_write fs of
        OpenFails \<Rightarrow> (Some (OSError OutputFile), fs)
      | WriteFails left \<Rightarrow> (Some (OSError OutputFile), fs\<lparr>output_file := Some left\<rparr>)
      | Written \<Rightarrow> (None, fs\<lparr>output_file := Some text\<rparr>))"

text \<open>
  The whole function: the exception that ended the run, if any, and the files as the run
  leaves them.
\<close>

definition merge_transcripts :: "files \<Rightarrow> error option \<times> files" where
  "merge_transcripts fs =
     (case load_settings (settings fs) of
        Inl e \<Rightarrow> (Some e, fs)
      | Inr speaker_mapping \<Rightarrow>
          (case merge_items fs speaker_mapping of
             Inl e \<Rightarrow> (Some e, fs)
           | Inr its \<Rightarrow> write_output fs (join_lines (result_lines its))))"

text \<open>The exit status of the script: an exception that is not caught ends it with 1.\<close>

definition exit_status :: "files \<Rightarrow> nat" where
  "exit_status fs = (case fst (merge_transcripts fs) of None \<Rightarrow> 0 | Some e \<Rightarrow> 1)"

subsection \<open>Reading the output\<close>

text \<open>
  The transcripts whose blocks stand in a list of items, and its chat lines, both in the
  order of the list.
\<close>

fun blocks_of :: "out_item list \<Rightarrow> transcript list" where
  "blocks_of [] = []"
| "blocks_of (ChatLine l # its) = blocks_of its"
| "blocks_of (Block t ls # its) = t # blocks_of its"

fun chat_lines_of :: "out_item list \<Rightarrow> string list" where
  "chat_lines_of [] = []"
| "chat_lines_of (ChatLine l # its) = l # chat_lines_of its"
| "chat_lines_of (Block t ls # its) = chat_lines_of its"

text \<open>
  The test of the loop, read on the times of day: the transcript's time of day and the
  chat line's are at most 60 seconds apart.
\<close>

definition within_tolerance :: "datetime \<Rightarrow> transcript \<Rightarrow> bool" where
  "within_tolerance line_time t =
     (\<bar>int (seconds_of_day (timestamp t)) - int (seconds_of_day line_time)\<bar> \<le> 60)"

text \<open>
  The lines of one transcript as they are to stand in the output, written out: the header
  with the speaker and the hour and minute in two digits each, then the lines of the text
  without the white space around it.
\<close>

abbreviation block_text :: "string \<Rightarrow> datetime \<Rightarrow> string \<Rightarrow> string list" where
  "block_text speaker ts content \<equiv>
     (''[Sprecher: '' @ speaker @ '' | Audio: '' @
        [''0123456789'' ! (hour ts div 10), ''0123456789'' ! (hour ts mod 10)] @ '':'' @
        [''0123456789'' ! (minute ts div 10), ''0123456789'' ! (minute ts mod 10)] @ '']'')
     # splitlines (strip content)"

text \<open>
  The block of a transcript as the loops emit it, \<open>speaker\<close> and \<open>text\<close> giving the
  speaker and the text of a file by its name.
\<close>

definition block_of :: "(string \<Rightarrow> string) \<Rightarrow> (string \<Rightarrow> string) \<Rightarrow> transcript \<Rightarrow> out_item" where
  "block_of speaker text t =
     Block t (header_line (speaker (path t)) (timestamp t) # body_lines (text (path t)))"

text \<open>The lines written for a list of items: a chat line as it is, a block as above.\<close>

abbreviation written_lines :: "(string \<Rightarrow> string) \<Rightarrow> (string \<Rightarrow> string) \<Rightarrow> out_item list \<Rightarrow> string list" where
  "written_lines speaker text its \<equiv>
     concat (map (\<lambda>it. case it of
                         ChatLine l \<Rightarrow> [l]
                       | Block t ls \<Rightarrow> block_text (speaker (path t)) (timestamp t) (text (path t)))
                 its)"

subsection \<open>A small conversation\<close>

text \<open>
  The chat line and the transcript of the first scenario, a second chat line, transcripts
  60 and 61 seconds from the first chat line and one hours before it, a file name without
  a timestamp, and the files of a run over them.
\<close>

definition hallo_line :: string where
  "hallo_line = ''[14:05] Hallo!''"

definition hallo_time :: datetime where
  "hallo_time = \<lparr>year = 1900, month = 1, day = 1, hour = 14, minute = 5, second = 0\<rparr>"

definition hallo_text :: string where
  "hallo_text = hallo_line @ [CHR 0x0A]"

definition bye_line :: string where
  "bye_line = ''[15:00] Bye''"

definition bye_time :: datetime where
  "bye_time = \<lparr>year = 1900, month = 1, day = 1, hour = 15, minute = 0, second = 0\<rparr>"

definition hallo_bye_text :: string where
  "hallo_bye_text = hallo_line @ [CHR 0x0A] @ bye_line"

definition max_name :: string where
  "max_name = ''2024-06-28_14-05-30_Max.txt''"

definition max_transcript :: transcript where
  "max_transcript = \<lparr>path = max_name,
     timestamp = \<lparr>year = 2024, month = 6, day = 28, hour = 14, minute = 5, second = 30\<rparr>\<rparr>"

definition at60_name :: string where
  "at60_name = ''2024-06-28_14-06-00_Max.txt''"

definition at60_transcript :: transcript where
  "at60_transcript = \<lparr>path = at60_name,
     timestamp = \<lparr>year = 2024, month = 6, day = 28, hour = 14, minute = 6, second = 0\<rparr>\<rparr>"

definition at61_name :: string where
  "at61_name = ''2024-06-28_14-06-01_Max.txt''"

definition at61_transcript :: transcript where
  "at61_transcript = \<lparr>path = at61_name,
     timestamp = \<lparr>year = 2024, month = 6, day = 28, hour = 14, minute = 6, second = 1\<rparr>\<rparr>"

definition early_name :: string where
  "early_name = ''2024-06-28_10-00-00_Max.txt''"

definition early_transcript :: transcript where
  "early_transcript = \<lparr>path = early_name,
     timestamp = \<lparr>year = 2024, month = 6, day = 28, hour = 10, minute = 0, second = 0\<rparr>\<rparr>"

definition voice_note :: string where
  "voice_note = ''voice_note.txt''"

definition hi_text :: string where
  "hi_text = '' Hi'' @ [CHR 0x0A] @ ''du '' @ [CHR 0x0A]"

definition hi_files :: "string \<Rightarrow> string option" where
  "hi_files n = Some hi_text"

definition no_files :: "string \<Rightarrow> string option" where
  "no_files n = None"

definition scenario :: "string option \<Rightarrow> string list option \<Rightarrow> (string \<Rightarrow> string option) \<Rightarrow> files" where
  "scenario chat dir tfiles =
     \<lparr>settings = NoSettingsFile, chat_file = chat, transcript_dir = dir,
      transcript_files = tfiles, output_file = None, output_write = Written\<rparr>"

subsection \<open>The shapes of a file name\<close>

text \<open>
  What the two patterns of the speaker resolver describe, stated on the file name itself.
  A name has the dated shape, with the speaker \<open>name\<close>, when somewhere in it stand a date
  \<^verbatim>\<open>YYYY-MM-DD\<close>, an underscore, a run of digits and hyphens, an underscore, the speaker
  (not empty, without a line feed) and \<^verbatim>\<open>.txt\<close>. It has the loose shape when it ends, up
  to one final line feed, in an underscore, the speaker (not empty, of word characters) and
  \<^verbatim>\<open>.txt\<close>.
\<close>

definition dated_shape :: "string \<Rightarrow> string \<Rightarrow> bool" where
  "dated_shape filename name =
     (\<exists>pre y m d run post.
        filename = pre @ y @ ''-'' @ m @ ''-'' @ d @ ''_'' @ run @ ''_'' @ name @ ''.txt'' @ post \<and>
        length y = 4 \<and> length m = 2 \<and> length d = 2 \<and>
        list_all is_digit y \<and> list_all is_digit m \<and> list_all is_digit d \<and>
        run \<noteq> [] \<and> list_all (\<lambda>c. is_digit c \<or> c = CHR ''-'') run \<and>
        name \<noteq> [] \<and> CHR 0x0A \<notin> set name)"

definition loose_shape :: "string \<Rightarrow> string \<Rightarrow> bool" where
  "loose_shape filename name =
     (\<exists>pre e.
        filename = pre @ ''_'' @ name @ ''.txt'' @ e \<and> (e = [] \<or> e = [CHR 0x0A]) \<and>
        name \<noteq> [] \<and> list_all is_word name)"

section \<open>Properties\<close>

subsection \<open>The shape of the output\<close>

lemma blocks_of_append [simp]: "blocks_of (xs @ ys) = blocks_of xs @ blocks_of ys"
  by (induction xs rule: blocks_of.induct) simp_all

lemma chat_lines_of_append [simp]: "chat_lines_of (xs @ ys) = chat_lines_of xs @ chat_lines_of ys"
  by (induction xs rule: chat_lines_of.induct) simp_all

lemma emit_transcript_Inr:
  "emit_transcript tfiles mapping t shown = Inr b \<Longrightarrow>
     \<exists>speaker content. infer_speaker (path t) mapping = Inr speaker \<and>
       tfiles (path t) = Some content \<and>
       b = Block t (header_line speaker shown # body_lines content)"
  by (auto simp: emit_transcript_def split: sum.splits option.splits)

lemma consume_Inr:
  "consume tfiles mapping lt ts = Inr (bs, rest) \<Longrightarrow>
     blocks_of bs @ rest = ts \<and> chat_lines_of bs = []"
proof (induction ts arbitrary: bs rest)
  case Nil
  then show ?case by simp
next
  case (Cons t ts)
  then show ?case
    by (auto split: sum.splits if_splits prod.splits dest!: emit_transcript_Inr)
qed

lemma walk_Inr:
  "walk tfiles mapping ls ts = Inr (its, rest) \<Longrightarrow>
     blocks_of its @ rest = ts \<and> chat_lines_of its = ls"
proof (induction ls arbitrary: ts its rest)
  case Nil
  then show ?case by simp
next
  case (Cons l ls)
  then show ?case
    by (fastforce split: sum.splits option.splits prod.splits dest!: consume_Inr)
qed

lemma append_remaining_Inr:
  "append_remaining tfiles mapping ts = Inr tail \<Longrightarrow>
     blocks_of tail = ts \<and> chat_lines_of tail = []"
proof (induction ts arbitrary: tail)
  case Nil
  then show ?case by simp
next
  case (Cons t ts)
  then show ?case
    by (auto split: sum.splits dest!: emit_transcript_Inr)
qed

lemma merge_items_Inr:
  assumes "merge_items fs mapping = Inr its"
  shows "\<exists>content. chat_file fs = Some content \<and>
           blocks_of its = load_transcripts (transcript_dir fs) \<and>
           chat_lines_of its = splitlines content"
  using assms
  by (auto simp: merge_items_def Let_def split: option.splits sum.splits prod.splits
      dest!: walk_Inr append_remaining_Inr)

lemma merge_transcripts_None:
  assumes "merge_transcripts fs = (None, fs')"
  shows "\<exists>mapping its. load_settings (settings fs) = Inr mapping \<and>
           merge_items fs mapping = Inr its \<and>
           output_write fs = Written \<and>
           fs' = fs\<lparr>output_file := Some (join_lines (result_lines its))\<rparr>"
  using assms
  by (auto simp: merge_transcripts_def write_output_def split: sum.splits write_outcome.splits)

subsection \<open>The parsers and calendar values\<close>

text \<open>
  C4. The claim is that neither parser ever raises, and that invalid calendar values
  give the result "no timestamp". The parser of file names does so: it catches the
  \<^verbatim>\<open>ValueError\<close> of \<^verbatim>\<open>strptime\<close>, and month 13 gives \<open>None\<close>. The parser of chat
  lines calls \<^verbatim>\<open>strptime\<close> without a guard: on a line that starts with \<^verbatim>\<open>[25:00]\<close> the
  \<^verbatim>\<open>ValueError\<close> leaves the function.
\<close>

theorem parse_chat_line_time_raises:
  "parse_chat_line_time ''[25:00] Hallo'' = Inl ValueError \<and>
   parse_transcript_timestamp ''2024-13-28_14-05-30_Max.txt'' = None"
  by code_simp

subsection \<open>The loop at one chat line\<close>

lemma mk_datetime_Inr:
  "mk_datetime y mo d h mi s = Inr t \<Longrightarrow>
     t = \<lparr>year = y, month = mo, day = d, hour = h, minute = mi, second = s\<rparr> \<and>
     h \<le> 23 \<and> mi \<le> 59 \<and> s \<le> 59"
  by (auto simp: mk_datetime_def split: if_splits)

lemma parse_chat_line_time_Some:
  assumes "parse_chat_line_time line = Inr (Some lt)"
  shows "year lt = 1900 \<and> month lt = 1 \<and> day lt = 1 \<and> hour lt \<le> 23 \<and> minute lt \<le> 59 \<and> second lt = 0"
  using assms
  by (auto simp: parse_chat_line_time_def strptime_hour_minute_def
      split: option.splits sum.splits prod.splits dest!: mk_datetime_Inr)

lemma parse_transcript_timestamp_Some:
  assumes "parse_transcript_timestamp name = Some ts"
  shows "hour ts \<le> 23 \<and> minute ts \<le> 59 \<and> second ts \<le> 59"
  using assms
  by (auto simp: parse_transcript_timestamp_def strptime_date_time_def Let_def
      split: option.splits sum.splits prod.splits dest!: mk_datetime_Inr)

lemma new_transcript_Some:
  assumes "new_transcript name = Some t"
  shows "path t = name \<and> parse_transcript_timestamp name = Some (timestamp t) \<and>
         hour (timestamp t) \<le> 23 \<and> minute (timestamp t) \<le> 59 \<and> second (timestamp t) \<le> 59"
  using assms parse_transcript_timestamp_Some
  by (auto simp: new_transcript_def split: option.splits)

lemma replace_date_chat:
  assumes "year lt = 1900" "month lt = 1" "day lt = 1"
    and "hour ts \<le> 23" "minute ts \<le> 59" "second ts \<le> 59"
  shows "replace_date ts (year lt) (month lt) (day lt) =
           Inr \<lparr>year = 1900, month = 1, day = 1, hour = hour ts, minute = minute ts, second = second ts\<rparr>"
  using assms by (simp add: replace_date_def mk_datetime_def days_in_month_def)

lemma total_seconds_same_day:
  assumes "year a = year b" "month a = month b" "day a = day b"
  shows "total_seconds a b = int (seconds_of_day a) - int (seconds_of_day b)"
  using assms by (simp add: total_seconds_def toordinal_def)

lemma header_line_projected:
  "header_line sp \<lparr>year = y, month = mo, day = d, hour = hour ts, minute = minute ts, second = s\<rparr>
     = header_line sp ts"
  by (simp add: header_line_def strftime_hm_def)

lemma digit_char: "d < 10 \<Longrightarrow> char_of (48 + d) = ''0123456789'' ! d"
proof -
  assume "d < 10"
  then have "d = 0 \<or> d = 1 \<or> d = 2 \<or> d = 3 \<or> d = 4 \<or> d = 5 \<or> d = 6 \<or> d = 7 \<or> d = 8 \<or> d = 9"
    by arith
  then show ?thesis by (elim disjE) (simp_all add: char_of_def bit_0)
qed

lemma two_digits_text:
  assumes "n < 100"
  shows "two_digits n = [''0123456789'' ! (n div 10), ''0123456789'' ! (n mod 10)]"
proof -
  have a: "n div 10 < 10" using assms by simp
  have b: "n mod 10 < 10" by simp
  have c: "n div 10 mod 10 = n div 10" using a by simp
  show ?thesis unfolding two_digits_def c digit_char [OF a] digit_char [OF b] ..
qed

lemma body_lines_text: "body_lines content = splitlines (strip content)"
  by (simp add: body_lines_def Let_def splitlines_def)

lemma block_text_eq:
  assumes "hour t \<le> 23" "minute t \<le> 59"
  shows "header_line sp t # body_lines c = block_text sp t c"
proof -
  have h: "hour t < 100" and m: "minute t < 100" using assms by simp_all
  show ?thesis
    unfolding header_line_def strftime_hm_def two_digits_text [OF h] two_digits_text [OF m]
      body_lines_text by simp
qed

lemma block_of_text:
  assumes "new_transcript (path t) = Some t"
  shows "block_of speaker text t =
           Block t (block_text (speaker (path t)) (timestamp t) (text (path t)))"
  unfolding block_of_def using new_transcript_Some [OF assms]
  by (intro arg_cong [where f = "Block t"] block_text_eq) simp_all

lemma consume_Cons:
  assumes lt: "parse_chat_line_time line = Inr (Some lt)"
    and t: "new_transcript (path t) = Some t"
  shows "consume tfiles mapping lt (t # ts) =
           (if within_tolerance lt t then
              (case infer_speaker (path t) mapping of
                 Inl e \<Rightarrow> Inl e
               | Inr speaker \<Rightarrow>
                   (case tfiles (path t) of
                      None \<Rightarrow> Inl (OSError (TranscriptFile (path t)))
                    | Some content \<Rightarrow>
                        (case consume tfiles mapping lt ts of
                           Inl e \<Rightarrow> Inl e
                         | Inr (bs, rest) \<Rightarrow>
                             Inr (Block t (header_line speaker (timestamp t) # body_lines content) # bs,
                                  rest))))
            else Inr ([], t # ts))"
proof -
  note c = parse_chat_line_time_Some [OF lt]
  note v = new_transcript_Some [OF t]
  let ?tt = "\<lparr>year = 1900, month = 1, day = 1, hour = hour (timestamp t),
               minute = minute (timestamp t), second = second (timestamp t)\<rparr>"
  have r: "replace_date (timestamp t) (year lt) (month lt) (day lt) = Inr ?tt"
    using c v by (intro replace_date_chat) simp_all
  have s: "total_seconds ?tt lt = int (seconds_of_day (timestamp t)) - int (seconds_of_day lt)"
    using c by (subst total_seconds_same_day) (simp_all add: seconds_of_day_def)
  have "consume tfiles mapping lt (t # ts) =
          (if \<bar>total_seconds ?tt lt\<bar> \<le> 60 then
            (case emit_transcript tfiles mapping t ?tt of
               Inl e \<Rightarrow> Inl e
             | Inr b \<Rightarrow>
                 (case consume tfiles mapping lt ts of
                    Inl e \<Rightarrow> Inl e
                  | Inr (bs, rest) \<Rightarrow> Inr (b # bs, rest)))
          else Inr ([], t # ts))"
    by (simp only: consume.simps r sum.case)
  also have "\<dots> = (if within_tolerance lt t then
            (case emit_transcript tfiles mapping t ?tt of
               Inl e \<Rightarrow> Inl e
             | Inr b \<Rightarrow>
                 (case consume tfiles mapping lt ts of
                    Inl e \<Rightarrow> Inl e
                  | Inr (bs, rest) \<Rightarrow> Inr (b # bs, rest)))
          else Inr ([], t # ts))"
    by (simp only: s within_tolerance_def)
  finally show ?thesis
    by (simp add: emit_transcript_def header_line_projected split: sum.splits option.splits)
qed

lemma consume_takeWhile:
  assumes lt: "parse_chat_line_time line = Inr (Some lt)"
    and ts: "\<forall>t\<in>set ts. new_transcript (path t) = Some t"
    and rd: "\<forall>t\<in>set (takeWhile (within_tolerance lt) ts).
               infer_speaker (path t) mapping = Inr (speaker (path t)) \<and>
               tfiles (path t) = Some (text (path t))"
  shows "consume tfiles mapping lt ts =
           Inr (map (block_of speaker text) (takeWhile (within_tolerance lt) ts),
                dropWhile (within_tolerance lt) ts)"
  using ts rd
proof (induction ts)
  case Nil
  then show ?case by simp
next
  case (Cons t ts)
  have t: "new_transcript (path t) = Some t" using Cons.prems(1) by simp
  show ?case
  proof (cases "within_tolerance lt t")
    case True
    with Cons show ?thesis
      by (simp add: consume_Cons [OF lt t] block_of_def del: consume.simps)
  next
    case False
    then show ?thesis by (simp add: consume_Cons [OF lt t] del: consume.simps)
  qed
qed

lemma consume_rendered:
  assumes lt: "parse_chat_line_time line = Inr (Some lt)"
    and sp: "\<forall>n s. infer_speaker n mapping = Inr s \<longrightarrow> speaker n = s"
    and tx: "\<forall>n c. tfiles n = Some c \<longrightarrow> text n = c"
  shows "\<forall>t\<in>set ts. new_transcript (path t) = Some t \<Longrightarrow>
         consume tfiles mapping lt ts = Inr (bs, rest) \<Longrightarrow>
           bs = map (block_of speaker text) (takeWhile (within_tolerance lt) ts) \<and>
           rest = dropWhile (within_tolerance lt) ts \<and>
           (\<forall>t\<in>set (takeWhile (within_tolerance lt) ts).
               infer_speaker (path t) mapping = Inr (speaker (path t)) \<and>
               tfiles (path t) = Some (text (path t)))"
proof (induction ts arbitrary: bs rest)
  case Nil
  then show ?case by simp
next
  case (Cons t ts)
  have t: "new_transcript (path t) = Some t" using Cons.prems(1) by simp
  have v: "\<forall>t\<in>set ts. new_transcript (path t) = Some t" using Cons.prems(1) by simp
  show ?case
  proof (cases "within_tolerance lt t")
    case False
    with Cons.prems(2) show ?thesis by (auto simp: consume_Cons [OF lt t] simp del: consume.simps)
  next
    case True
    with Cons.prems(2) obtain s c bs' where
      s: "infer_speaker (path t) mapping = Inr s" and c: "tfiles (path t) = Some c"
      and r: "consume tfiles mapping lt ts = Inr (bs', rest)"
      and b: "bs = Block t (header_line s (timestamp t) # body_lines c) # bs'"
      by (auto simp: consume_Cons [OF lt t] simp del: consume.simps
          split: sum.splits option.splits prod.splits)
    from Cons.IH [OF v r] sp [rule_format, OF s] tx [rule_format, OF c] True s c b show ?thesis
      by (simp add: block_of_def)
  qed
qed

subsection \<open>When the walk succeeds, and what it has read\<close>

lemma parse_chat_line_time_cases:
  "parse_chat_line_time l = Inl ValueError \<or> (\<exists>r. parse_chat_line_time l = Inr r)"
  by (cases "parse_chat_line_time l") (auto simp: parse_chat_line_time_def mk_datetime_def strptime_hour_minute_def split: option.splits sum.splits if_splits)

lemma walk_Cons_time:
  assumes lt: "parse_chat_line_time line = Inr (Some lt)"
    and ts: "\<forall>t\<in>set ts. new_transcript (path t) = Some t"
    and rd: "\<forall>t\<in>set (takeWhile (within_tolerance lt) ts).
               infer_speaker (path t) mapping = Inr (speaker (path t)) \<and>
               tfiles (path t) = Some (text (path t))"
  shows "walk tfiles mapping (line # lines) ts =
     (case walk tfiles mapping lines (dropWhile (within_tolerance lt) ts) of
        Inl e \<Rightarrow> Inl e
      | Inr (its, rest) \<Rightarrow>
          Inr (ChatLine line # map (block_of speaker text) (takeWhile (within_tolerance lt) ts) @ its,
               rest))"
  by (simp add: lt consume_takeWhile [OF lt ts rd])

lemma sorted_key_takeWhile:
  "sorted (map f xs) \<Longrightarrow> sorted (map f (takeWhile P xs))"
  by (induction xs) (auto dest: set_takeWhileD)


lemma append_remaining_rendered:
  assumes sp: "\<forall>n s. infer_speaker n mapping = Inr s \<longrightarrow> speaker n = s"
    and tx: "\<forall>n c. tfiles n = Some c \<longrightarrow> text n = c"
  shows "\<forall>t\<in>set ts. new_transcript (path t) = Some t \<Longrightarrow>
         append_remaining tfiles mapping ts = Inr tail \<Longrightarrow>
           tail = map (block_of speaker text) ts \<and>
           (\<forall>t\<in>set ts. infer_speaker (path t) mapping = Inr (speaker (path t)) \<and>
                         tfiles (path t) = Some (text (path t)))"
proof (induction ts arbitrary: tail)
  case Nil
  then show ?case by simp
next
  case (Cons t ts)
  have t: "new_transcript (path t) = Some t" using Cons.prems(1) by simp
  have v: "\<forall>t\<in>set ts. new_transcript (path t) = Some t" using Cons.prems(1) by simp
  from Cons.prems(2) obtain b bs where
    e: "emit_transcript tfiles mapping t (timestamp t) = Inr b"
    and r: "append_remaining tfiles mapping ts = Inr bs" and tl: "tail = b # bs"
    by (auto split: sum.splits)
  from emit_transcript_Inr [OF e] obtain s c where
    s: "infer_speaker (path t) mapping = Inr s" and c: "tfiles (path t) = Some c"
    and b: "b = Block t (header_line s (timestamp t) # body_lines c)" by blast
  from Cons.IH [OF v r] sp [rule_format, OF s] tx [rule_format, OF c] s c b tl show ?case
    by (simp add: block_of_def)
qed

lemma append_remaining_succeeds:
  "\<forall>t\<in>set ts. infer_speaker (path t) mapping = Inr (speaker (path t)) \<and>
                 tfiles (path t) = Some (text (path t)) \<Longrightarrow>
     append_remaining tfiles mapping ts = Inr (map (block_of speaker text) ts)"
  by (induction ts) (simp_all add: emit_transcript_def block_of_def)

lemma walk_no_transcripts:
  "\<forall>l\<in>set ls. parse_chat_line_time l \<noteq> Inl ValueError \<Longrightarrow>
     walk tfiles mapping ls [] = Inr (map ChatLine ls, [])"
proof (induction ls)
  case Nil
  then show ?case by simp
next
  case (Cons l ls)
  from Cons.prems parse_chat_line_time_cases [of l]
  obtain r where r: "parse_chat_line_time l = Inr r" by auto
  then show ?case using Cons by (cases r) simp_all
qed

lemma walk_rendered:
  assumes sp: "\<forall>n s. infer_speaker n mapping = Inr s \<longrightarrow> speaker n = s"
    and tx: "\<forall>n c. tfiles n = Some c \<longrightarrow> text n = c"
  shows "\<forall>t\<in>set ts. new_transcript (path t) = Some t \<Longrightarrow>
         walk tfiles mapping ls ts = Inr (its, rest) \<Longrightarrow>
           (\<forall>it\<in>set its. (\<exists>l. it = ChatLine l) \<or> (\<exists>t. it = block_of speaker text t)) \<and>
           (\<forall>t\<in>set (blocks_of its). infer_speaker (path t) mapping = Inr (speaker (path t)) \<and>
                         tfiles (path t) = Some (text (path t)))"
proof (induction ls arbitrary: ts its rest)
  case Nil
  then show ?case by simp
next
  case (Cons l ls)
  from Cons.prems(2) obtain r where r: "parse_chat_line_time l = Inr r"
    by (auto split: sum.splits)
  show ?case
  proof (cases r)
    case None
    with Cons.prems(2) r obtain its' where w: "walk tfiles mapping ls ts = Inr (its', rest)"
      and i: "its = ChatLine l # its'"
      by (auto split: sum.splits prod.splits)
    from Cons.IH [OF Cons.prems(1) w] i show ?thesis by simp
  next
    case (Some lt)
    with r have lt: "parse_chat_line_time l = Inr (Some lt)" by simp
    from Cons.prems(2) lt obtain bs ts' its' where
      c: "consume tfiles mapping lt ts = Inr (bs, ts')"
      and w: "walk tfiles mapping ls ts' = Inr (its', rest)"
      and i: "its = ChatLine l # bs @ its'"
      by (auto split: sum.splits prod.splits)
    note cr = consume_rendered [OF lt sp tx Cons.prems(1) c]
    have v: "\<forall>t\<in>set ts'. new_transcript (path t) = Some t"
      using cr Cons.prems(1) by (auto dest: set_dropWhileD)
    have "blocks_of bs @ ts' = takeWhile (within_tolerance lt) ts @ ts'"
      using consume_Inr [OF c] cr by simp
    then have bl: "blocks_of bs = takeWhile (within_tolerance lt) ts" by simp
    from Cons.IH [OF v w] cr i bl show ?thesis by auto
  qed
qed

subsection \<open>The transcripts loaded\<close>


lemma set_map_filter_iff:
  "t \<in> set (List.map_filter f xs) \<longleftrightarrow> (\<exists>x\<in>set xs. f x = Some t)"
  by (induction xs) (auto simp: List.map_filter_simps split: option.splits)

lemma set_load_transcripts:
  "t \<in> set (load_transcripts d) \<longleftrightarrow> path t \<in> set (glob_txt d) \<and> new_transcript (path t) = Some t"
  by (auto simp: load_transcripts_def set_map_filter_iff dest: new_transcript_Some)




lemma sorted_load_transcripts:
  "sorted (map (\<lambda>t. datetime_key (timestamp t)) (load_transcripts d))"
  by (simp add: load_transcripts_def)

lemma subseq_chat_lines: "subseq (chat_lines_of its) (result_lines its)"
  by (induction its rule: chat_lines_of.induct)
     (simp_all add: result_lines_def list_emb_append2)

subsection \<open>Lines of text and runs without failure\<close>

lemma splitlines_acc_nonempty:
  "acc \<noteq> [] \<or> s \<noteq> [] \<Longrightarrow> splitlines_acc acc s \<noteq> []"
proof (induction s arbitrary: acc)
  case Nil
  then show ?case by simp
next
  case (Cons c cs)
  show ?case
  proof (cases "is_linebreak c")
    case True
    then show ?thesis by (simp split: list.splits)
  next
    case False
    then have "splitlines_acc acc (c # cs) = splitlines_acc (c # acc) cs" by simp
    then show ?thesis using Cons.IH [of "c # acc"] by simp
  qed
qed

lemma join_lines_Cons:
  "ys \<noteq> [] \<Longrightarrow> join_lines (x # ys) = x @ CHR 0x0A # join_lines ys"
  by (cases ys) simp_all

lemma is_linebreak_LF: "is_linebreak (CHR 0x0A)"
  by (simp add: is_linebreak_def)

lemma join_splitlines_acc:
  assumes "\<forall>c\<in>set s. is_linebreak c \<longrightarrow> c = CHR 0x0A"
    and "s = [] \<or> last s \<noteq> CHR 0x0A"
  shows "join_lines (splitlines_acc acc s) = rev acc @ s"
  using assms
proof (induction s arbitrary: acc)
  case Nil
  then show ?case by simp
next
  case (Cons c cs)
  show ?case
  proof (cases "is_linebreak c")
    case True
    with Cons.prems(1) have c: "c = CHR 0x0A" by simp
    with Cons.prems(2) have ne: "cs \<noteq> []" by auto
    with Cons.prems(2) have l: "cs = [] \<or> last cs \<noteq> CHR 0x0A" by simp
    have ih: "join_lines (splitlines_acc [] cs) = cs"
      using Cons.IH [of "[]"] Cons.prems(1) l by simp
    have "splitlines_acc acc (c # cs) = rev acc # splitlines_acc [] cs"
      using c by (simp add: is_linebreak_LF)
    then show ?thesis
      using splitlines_acc_nonempty [of "[]" cs] ne ih c by (simp add: join_lines_Cons)
  next
    case False
    have l: "cs = [] \<or> last cs \<noteq> CHR 0x0A" using Cons.prems(2) by (auto split: if_splits)
    from False have "splitlines_acc acc (c # cs) = splitlines_acc (c # acc) cs" by simp
    then show ?thesis using Cons.IH [of "c # acc"] Cons.prems(1) l by simp
  qed
qed

subsection \<open>The lines of the blocks\<close>

lemma merge_items_rendered:
  assumes m: "merge_items fs mapping = Inr its"
    and sp: "\<forall>n s. infer_speaker n mapping = Inr s \<longrightarrow> speaker n = s"
    and tx: "\<forall>n c. transcript_files fs n = Some c \<longrightarrow> text n = c"
  shows "\<exists>content inline rest.
           chat_file fs = Some content \<and>
           walk (transcript_files fs) mapping (splitlines content)
             (load_transcripts (transcript_dir fs)) = Inr (inline, rest) \<and>
           its = inline @ map (block_of speaker text) rest \<and>
           (\<forall>it\<in>set its. (\<exists>l. it = ChatLine l) \<or> (\<exists>t. it = block_of speaker text t)) \<and>
           (\<forall>t\<in>set (load_transcripts (transcript_dir fs)).
              infer_speaker (path t) mapping = Inr (speaker (path t)) \<and>
              transcript_files fs (path t) = Some (text (path t)))"
proof -
  let ?ts = "load_transcripts (transcript_dir fs)"
  from m obtain content inl rest tail where
    c: "chat_file fs = Some content"
    and w: "walk (transcript_files fs) mapping (splitlines content) ?ts = Inr (inl, rest)"
    and a: "append_remaining (transcript_files fs) mapping rest = Inr tail"
    and i: "its = inl @ tail"
    by (auto simp: merge_items_def Let_def split: option.splits sum.splits prod.splits)
  have v: "\<forall>t\<in>set ?ts. new_transcript (path t) = Some t"
    by (simp add: set_load_transcripts)
  from walk_Inr [OF w] have ld: "?ts = blocks_of inl @ rest" by simp
  then have vr: "\<forall>t\<in>set rest. new_transcript (path t) = Some t" using v by simp
  note wr = walk_rendered [OF sp tx v w]
  note ar = append_remaining_rendered [OF sp tx vr a]
  have "\<forall>t\<in>set ?ts. infer_speaker (path t) mapping = Inr (speaker (path t)) \<and>
              transcript_files fs (path t) = Some (text (path t))"
    unfolding ld using wr ar by auto
  moreover have "\<forall>it\<in>set its. (\<exists>l. it = ChatLine l) \<or> (\<exists>t. it = block_of speaker text t)"
    unfolding i using wr ar by auto
  ultimately show ?thesis using c w i ar by blast
qed

lemma merge_items_resolved:
  assumes "merge_items fs mapping = Inr its"
  shows "\<forall>t\<in>set (load_transcripts (transcript_dir fs)).
           transcript_files fs (path t) \<noteq> None \<and> (\<exists>s. infer_speaker (path t) mapping = Inr s)"
proof -
  let ?sp = "\<lambda>n. case infer_speaker n mapping of Inr s \<Rightarrow> s | Inl e \<Rightarrow> []"
  let ?tx = "\<lambda>n. case transcript_files fs n of Some c \<Rightarrow> c | None \<Rightarrow> []"
  have "\<exists>content inline rest.
           chat_file fs = Some content \<and>
           walk (transcript_files fs) mapping (splitlines content)
             (load_transcripts (transcript_dir fs)) = Inr (inline, rest) \<and>
           its = inline @ map (block_of ?sp ?tx) rest \<and>
           (\<forall>it\<in>set its. (\<exists>l. it = ChatLine l) \<or> (\<exists>t. it = block_of ?sp ?tx t)) \<and>
           (\<forall>t\<in>set (load_transcripts (transcript_dir fs)).
              infer_speaker (path t) mapping = Inr (?sp (path t)) \<and>
              transcript_files fs (path t) = Some (?tx (path t)))"
    by (rule merge_items_rendered [OF assms]) simp_all
  then show ?thesis by auto
qed

lemma item_lines_block_of:
  assumes "new_transcript (path t) = Some t"
  shows "item_lines (block_of speaker text t) =
           block_text (speaker (path t)) (timestamp t) (text (path t))"
  unfolding block_of_text [OF assms] by (rule item_lines.simps)

lemma lines_of_blocks:
  assumes "\<forall>t\<in>set ts. new_transcript (path t) = Some t"
  shows "concat (map item_lines (map (block_of speaker text) ts)) =
           concat (map (\<lambda>t. block_text (speaker (path t)) (timestamp t) (text (path t))) ts)"
proof -
  have "map item_lines (map (block_of speaker text) ts) =
          map (\<lambda>t. block_text (speaker (path t)) (timestamp t) (text (path t))) ts"
    unfolding map_map using assms
    by (intro map_cong refl) (simp only: o_def item_lines_block_of)
  then show ?thesis by (rule arg_cong)
qed

lemma result_lines_written:
  assumes "\<forall>it\<in>set its. (\<exists>l. it = ChatLine l) \<or> (\<exists>t. it = block_of speaker text t)"
    and "\<forall>t\<in>set (blocks_of its). new_transcript (path t) = Some t"
  shows "result_lines its = written_lines speaker text its"
  using assms
proof (induction its)
  case Nil
  show ?case by (simp add: result_lines_def)
next
  case (Cons it its)
  have l: "result_lines (x # its) = item_lines x @ result_lines its" for x
    by (simp add: result_lines_def)
  have w: "written_lines speaker text (x # its) =
             (case x of
                ChatLine l \<Rightarrow> [l]
              | Block t ls \<Rightarrow> block_text (speaker (path t)) (timestamp t) (text (path t)))
             @ written_lines speaker text its" for x
    by (simp only: list.map concat.simps)
  have p: "\<forall>it\<in>set its. (\<exists>l. it = ChatLine l) \<or> (\<exists>t. it = block_of speaker text t)"
    using Cons.prems(1) by simp
  from Cons.prems(1) consider (chat) l where "it = ChatLine l"
    | (block) t where "it = block_of speaker text t" by auto
  then show ?case
  proof cases
    case chat
    with Cons.prems(2) have "\<forall>t\<in>set (blocks_of its). new_transcript (path t) = Some t" by simp
    from Cons.IH [OF p this] show ?thesis
      unfolding chat l w by (simp only: item_lines.simps out_item.case)
  next
    case block
    then have b: "it = Block t (header_line (speaker (path t)) (timestamp t) # body_lines (text (path t)))"
      by (simp add: block_of_def)
    with Cons.prems(2) have v: "new_transcript (path t) = Some t"
      and r: "\<forall>t\<in>set (blocks_of its). new_transcript (path t) = Some t" by simp_all
    have e: "it = Block t (block_text (speaker (path t)) (timestamp t) (text (path t)))"
      unfolding block by (rule block_of_text [OF v])
    from Cons.IH [OF p r] show ?thesis
      unfolding e l w by (simp only: item_lines.simps out_item.case)
  qed
qed

lemma merge_items_no_transcripts:
  assumes "load_transcripts (transcript_dir fs) = []"
    and "chat_file fs = Some content"
    and "\<forall>l\<in>set (splitlines content). parse_chat_line_time l \<noteq> Inl ValueError"
  shows "merge_items fs mapping = Inr (map ChatLine (splitlines content))"
  using assms by (simp add: merge_items_def walk_no_transcripts)

lemma result_lines_chat: "result_lines (map ChatLine ls) = ls"
  by (induction ls) (simp_all add: result_lines_def)


lemma consume_blocks:
  assumes lt: "parse_chat_line_time line = Inr (Some lt)"
    and v: "\<forall>t\<in>set ts. new_transcript (path t) = Some t"
    and c: "consume tfiles mapping lt ts = Inr (bs, rest)"
  shows "blocks_of bs = takeWhile (within_tolerance lt) ts \<and>
         rest = dropWhile (within_tolerance lt) ts"
proof -
  let ?sp = "\<lambda>n. case infer_speaker n mapping of Inr s \<Rightarrow> s | Inl e \<Rightarrow> []"
  let ?tx = "\<lambda>n. case tfiles n of Some c \<Rightarrow> c | None \<Rightarrow> []"
  have sp: "\<forall>n s. infer_speaker n mapping = Inr s \<longrightarrow> ?sp n = s" by simp
  have tx: "\<forall>n c. tfiles n = Some c \<longrightarrow> ?tx n = c" by simp
  from consume_rendered [OF lt sp tx v c]
  have r: "rest = dropWhile (within_tolerance lt) ts" by blast
  have "blocks_of bs @ rest = takeWhile (within_tolerance lt) ts @ rest"
    using consume_Inr [OF c] r by simp
  then have b: "blocks_of bs = takeWhile (within_tolerance lt) ts"
    by (simp only: append_same_eq)
  from b r show ?thesis by (rule conjI)
qed

subsection \<open>The merge\<close>

text \<open>
  C2. At a chat line that carries a time, the loop takes transcripts from the cursor for
  as long as their time of day is within 60 seconds of the line's: their blocks follow
  the line at once, in the order of the list (ascending by timestamp when the list is
  sorted), and the walk goes on to the next line with the first transcript that is
  further away still at the cursor. In the lines to be written, the chat line is followed
  by the header and the text of each transcript taken, and then by the lines of the rest
  of the walk. The transcripts are those made from file names; the speakers of those
  taken resolve and their files can be read.
\<close>

theorem walk_chat_line_with_time:
  assumes "parse_chat_line_time line = Inr (Some line_time)"
    and "\<forall>t\<in>set ts. new_transcript (path t) = Some t"
    and "\<forall>t\<in>set (takeWhile (within_tolerance line_time) ts).
           infer_speaker (path t) mapping = Inr (speaker (path t)) \<and>
           tfiles (path t) = Some (text (path t))"
  shows "walk tfiles mapping (line # lines) ts =
     (case walk tfiles mapping lines (dropWhile (within_tolerance line_time) ts) of
        Inl e \<Rightarrow> Inl e
      | Inr (its, rest) \<Rightarrow>
          Inr (ChatLine line #
               map (\<lambda>t. Block t (block_text (speaker (path t)) (timestamp t) (text (path t))))
                 (takeWhile (within_tolerance line_time) ts) @ its,
               rest)) \<and>
     (\<forall>its rest.
        walk tfiles mapping lines (dropWhile (within_tolerance line_time) ts) = Inr (its, rest) \<longrightarrow>
        (\<exists>its'. walk tfiles mapping (line # lines) ts = Inr (its', rest) \<and>
           result_lines its' =
             line #
             concat (map (\<lambda>t. block_text (speaker (path t)) (timestamp t) (text (path t)))
                       (takeWhile (within_tolerance line_time) ts)) @
             result_lines its)) \<and>
     (sorted (map (\<lambda>t. datetime_key (timestamp t)) ts) \<longrightarrow>
      sorted (map (\<lambda>t. datetime_key (timestamp t)) (takeWhile (within_tolerance line_time) ts)))"
proof (intro conjI allI impI)
  let ?tw = "takeWhile (within_tolerance line_time) ts"
  have v: "\<forall>t\<in>set ?tw. new_transcript (path t) = Some t"
    using assms(2) by (auto dest: set_takeWhileD)
  have e: "map (block_of speaker text) ?tw =
             map (\<lambda>t. Block t (block_text (speaker (path t)) (timestamp t) (text (path t)))) ?tw"
    using v by (intro map_cong refl block_of_text) simp
  note w = walk_Cons_time [OF assms, of lines]
  show "walk tfiles mapping (line # lines) ts =
     (case walk tfiles mapping lines (dropWhile (within_tolerance line_time) ts) of
        Inl e \<Rightarrow> Inl e
      | Inr (its, rest) \<Rightarrow>
          Inr (ChatLine line #
               map (\<lambda>t. Block t (block_text (speaker (path t)) (timestamp t) (text (path t))))
                 ?tw @ its,
               rest))"
    using w unfolding e .
  show "\<exists>its'. walk tfiles mapping (line # lines) ts = Inr (its', rest) \<and>
           result_lines its' =
             line #
             concat (map (\<lambda>t. block_text (speaker (path t)) (timestamp t) (text (path t))) ?tw) @
             result_lines its"
    if r: "walk tfiles mapping lines (dropWhile (within_tolerance line_time) ts) = Inr (its, rest)"
    for its rest
  proof -
    let ?its = "ChatLine line # map (block_of speaker text) ?tw @ its"
    have a: "walk tfiles mapping (line # lines) ts = Inr (?its, rest)"
      unfolding w r by simp
    have "result_lines ?its =
            line # concat (map item_lines (map (block_of speaker text) ?tw)) @ result_lines its"
      by (simp add: result_lines_def)
    then have b: "result_lines ?its =
             line #
             concat (map (\<lambda>t. block_text (speaker (path t)) (timestamp t) (text (path t))) ?tw) @
             result_lines its"
      unfolding lines_of_blocks [OF v] .
    from a b show ?thesis by blast
  qed
  show "sorted (map (\<lambda>t. datetime_key (timestamp t)) ?tw)"
    if "sorted (map (\<lambda>t. datetime_key (timestamp t)) ts)"
    using that by (rule sorted_key_takeWhile)
qed

text \<open>
  C3, as amended. The claim has every transcript that is exactly 60 seconds from a chat
  line matched to it. The loop tests the transcript at the cursor only. For the transcript
  at the cursor the bound is inclusive: at exactly 60 seconds it is taken, and its header
  and text are the lines behind the chat line; at 61 seconds or more it is left at the
  cursor, and wherever it stands in the list, it is not among the blocks of that line.
  Behind a transcript that is more than 60 seconds away, no transcript is taken at that
  line, whatever its own distance.
\<close>

theorem tolerance_boundary:
  assumes "parse_chat_line_time line = Inr (Some line_time)"
    and "new_transcript (path t) = Some t"
    and "infer_speaker (path t) mapping = Inr speaker"
    and "tfiles (path t) = Some content"
  shows
    "(\<bar>int (seconds_of_day (timestamp t)) - int (seconds_of_day line_time)\<bar> = 60 \<longrightarrow>
        consume tfiles mapping line_time (t # ts) =
          (case consume tfiles mapping line_time ts of
             Inl e \<Rightarrow> Inl e
           | Inr (bs, rest) \<Rightarrow>
               Inr (Block t (block_text speaker (timestamp t) content) # bs, rest)) \<and>
        (\<forall>bs rest. consume tfiles mapping line_time ts = Inr (bs, rest) \<longrightarrow>
           (\<exists>its. walk tfiles mapping [line] (t # ts) = Inr (its, rest) \<and>
              result_lines its =
                line # block_text speaker (timestamp t) content @ result_lines bs))) \<and>
     (\<bar>int (seconds_of_day (timestamp t)) - int (seconds_of_day line_time)\<bar> \<ge> 61 \<longrightarrow>
        walk tfiles mapping [line] (t # ts) = Inr ([ChatLine line], t # ts) \<and>
        (\<forall>ts' its rest.
           (\<forall>u\<in>set ts'. new_transcript (path u) = Some u) \<and>
           walk tfiles mapping [line] ts' = Inr (its, rest) \<longrightarrow>
             t \<notin> set (blocks_of its))) \<and>
     (\<forall>u. new_transcript (path u) = Some u \<and>
          \<bar>int (seconds_of_day (timestamp u)) - int (seconds_of_day line_time)\<bar> > 60 \<longrightarrow>
            walk tfiles mapping [line] (u # t # ts) = Inr ([ChatLine line], u # t # ts))"
proof (intro conjI allI impI)
  note c = consume_Cons [OF assms(1,2), of tfiles mapping ts]
  have e: "header_line speaker (timestamp t) # body_lines content =
             block_text speaker (timestamp t) content"
    using new_transcript_Some [OF assms(2)] by (intro block_text_eq) simp_all
  {
    assume d: "\<bar>int (seconds_of_day (timestamp t)) - int (seconds_of_day line_time)\<bar> = 60"
    then have w: "within_tolerance line_time t" by (simp add: within_tolerance_def)
    have c': "consume tfiles mapping line_time (t # ts) =
          (case consume tfiles mapping line_time ts of
             Inl e \<Rightarrow> Inl e
           | Inr (bs, rest) \<Rightarrow>
               Inr (Block t (header_line speaker (timestamp t) # body_lines content) # bs, rest))"
      unfolding c using w assms(3,4) by simp
    then show "consume tfiles mapping line_time (t # ts) =
          (case consume tfiles mapping line_time ts of
             Inl e \<Rightarrow> Inl e
           | Inr (bs, rest) \<Rightarrow>
               Inr (Block t (block_text speaker (timestamp t) content) # bs, rest))"
      unfolding e .
    fix bs rest
    assume r: "consume tfiles mapping line_time ts = Inr (bs, rest)"
    let ?its = "ChatLine line # Block t (header_line speaker (timestamp t) # body_lines content) # bs"
    have a: "walk tfiles mapping [line] (t # ts) = Inr (?its, rest)"
      using assms(1) by (simp add: c' r del: consume.simps)
    have "result_lines ?its =
            line # (header_line speaker (timestamp t) # body_lines content) @ result_lines bs"
      by (simp add: result_lines_def)
    then have b: "result_lines ?its =
            line # block_text speaker (timestamp t) content @ result_lines bs"
      unfolding e .
    from a b show "\<exists>its. walk tfiles mapping [line] (t # ts) = Inr (its, rest) \<and>
              result_lines its =
                line # block_text speaker (timestamp t) content @ result_lines bs"
      by blast
  }
  {
    assume d: "\<bar>int (seconds_of_day (timestamp t)) - int (seconds_of_day line_time)\<bar> \<ge> 61"
    then have w: "\<not> within_tolerance line_time t" by (simp add: within_tolerance_def)
    show "walk tfiles mapping [line] (t # ts) = Inr ([ChatLine line], t # ts)"
      using assms(1) w by (simp add: c del: consume.simps)
    fix ts' its rest
    assume a: "(\<forall>u\<in>set ts'. new_transcript (path u) = Some u) \<and>
           walk tfiles mapping [line] ts' = Inr (its, rest)"
    then obtain bs r where cs: "consume tfiles mapping line_time ts' = Inr (bs, r)"
      and i: "its = ChatLine line # bs"
      using assms(1) by (auto split: sum.splits prod.splits)
    from consume_blocks [OF assms(1) _ cs] a
    have "blocks_of its = takeWhile (within_tolerance line_time) ts'" using i by simp
    then show "t \<notin> set (blocks_of its)" using w by (auto dest: set_takeWhileD)
  }
  {
    fix u
    assume a: "new_transcript (path u) = Some u \<and>
          \<bar>int (seconds_of_day (timestamp u)) - int (seconds_of_day line_time)\<bar> > 60"
    then have v: "new_transcript (path u) = Some u"
      and w: "\<not> within_tolerance line_time u" by (simp_all add: within_tolerance_def)
    show "walk tfiles mapping [line] (u # t # ts) = Inr ([ChatLine line], u # t # ts)"
      using assms(1) w by (simp add: consume_Cons [OF assms(1) v] del: consume.simps)
  }
qed

text \<open>
  C5. In the output of a run that succeeds, the chat lines of the input are the chat
  lines of the output, unchanged and in their order, and the other items are the blocks
  of the transcripts loaded; in the lines written the chat lines form a subsequence.
\<close>

theorem chat_lines_preserved:
  assumes "merge_transcripts fs = (None, fs')"
  shows "\<exists>mapping content its.
           load_settings (settings fs) = Inr mapping \<and>
           chat_file fs = Some content \<and> merge_items fs mapping = Inr its \<and>
           output_file fs' = Some (join_lines (result_lines its)) \<and>
           chat_lines_of its = splitlines content \<and>
           blocks_of its = load_transcripts (transcript_dir fs) \<and>
           subseq (splitlines content) (result_lines its)"
proof -
  from merge_transcripts_None [OF assms] obtain mapping its where
    s: "load_settings (settings fs) = Inr mapping"
    and its: "merge_items fs mapping = Inr its"
    and out: "fs' = fs\<lparr>output_file := Some (join_lines (result_lines its))\<rparr>"
    by blast
  from merge_items_Inr [OF its] obtain content where
    c: "chat_file fs = Some content" "chat_lines_of its = splitlines content"
      "blocks_of its = load_transcripts (transcript_dir fs)" by blast
  have "subseq (splitlines content) (result_lines its)"
    using subseq_chat_lines [of its] c by simp
  with s its out c show ?thesis by simp
qed


text \<open>
  C6. The text written is what the walk produced, which holds every chat line and the
  blocks of the transcripts it took, and behind it the transcripts the walk left, in the
  order of the sorted list, so ascending by timestamp: for each the header with the
  speaker and the time, then the lines of its text.
\<close>

theorem remaining_appended_at_end:
  assumes "merge_transcripts fs = (None, fs')"
  shows "\<exists>mapping speaker text content inline rest.
           load_settings (settings fs) = Inr mapping \<and>
           chat_file fs = Some content \<and>
           walk (transcript_files fs) mapping (splitlines content)
             (load_transcripts (transcript_dir fs)) = Inr (inline, rest) \<and>
           chat_lines_of inline = splitlines content \<and>
           load_transcripts (transcript_dir fs) = blocks_of inline @ rest \<and>
           (\<forall>t\<in>set (blocks_of inline @ rest).
              infer_speaker (path t) mapping = Inr (speaker (path t)) \<and>
              transcript_files fs (path t) = Some (text (path t))) \<and>
           output_file fs' =
             Some (join_lines
               (written_lines speaker text inline @
                concat (map (\<lambda>t. block_text (speaker (path t)) (timestamp t) (text (path t)))
                          rest))) \<and>
           sorted (map (\<lambda>t. datetime_key (timestamp t)) rest)"
proof -
  from merge_transcripts_None [OF assms(1)] obtain mapping its where
    s: "load_settings (settings fs) = Inr mapping"
    and its: "merge_items fs mapping = Inr its"
    and out: "fs' = fs\<lparr>output_file := Some (join_lines (result_lines its))\<rparr>"
    by blast
  let ?sp = "\<lambda>n. case infer_speaker n mapping of Inr s \<Rightarrow> s | Inl e \<Rightarrow> []"
  let ?tx = "\<lambda>n. case transcript_files fs n of Some c \<Rightarrow> c | None \<Rightarrow> []"
  let ?ts = "load_transcripts (transcript_dir fs)"
  have sp: "\<forall>n s. infer_speaker n mapping = Inr s \<longrightarrow> ?sp n = s" by simp
  have tx: "\<forall>n c. transcript_files fs n = Some c \<longrightarrow> ?tx n = c" by simp
  from merge_items_rendered [OF its sp tx] obtain content inl rest where
    c: "chat_file fs = Some content"
    and w: "walk (transcript_files fs) mapping (splitlines content) ?ts = Inr (inl, rest)"
    and i: "its = inl @ map (block_of ?sp ?tx) rest"
    and r: "\<forall>it\<in>set its. (\<exists>l. it = ChatLine l) \<or> (\<exists>t. it = block_of ?sp ?tx t)"
    and k: "\<forall>t\<in>set ?ts. infer_speaker (path t) mapping = Inr (?sp (path t)) \<and>
              transcript_files fs (path t) = Some (?tx (path t))"
    by blast
  from walk_Inr [OF w] have ld: "?ts = blocks_of inl @ rest"
    and ch: "chat_lines_of inl = splitlines content" by simp_all
  have v: "\<forall>t\<in>set ?ts. new_transcript (path t) = Some t"
    by (simp add: set_load_transcripts)
  have vi: "\<forall>t\<in>set (blocks_of inl). new_transcript (path t) = Some t"
    and vr: "\<forall>t\<in>set rest. new_transcript (path t) = Some t"
    using v unfolding ld by simp_all
  have ri: "\<forall>it\<in>set inl. (\<exists>l. it = ChatLine l) \<or> (\<exists>t. it = block_of ?sp ?tx t)"
    using r unfolding i by simp
  have "result_lines its = result_lines inl @ concat (map item_lines (map (block_of ?sp ?tx) rest))"
    unfolding i by (simp add: result_lines_def)
  then have l: "result_lines its =
      written_lines ?sp ?tx inl @
      concat (map (\<lambda>t. block_text (?sp (path t)) (timestamp t) (?tx (path t))) rest)"
    unfolding result_lines_written [OF ri vi] lines_of_blocks [OF vr] .
  have "output_file fs' = Some (join_lines (result_lines its))"
    unfolding out by simp
  then have o: "output_file fs' =
             Some (join_lines
               (written_lines ?sp ?tx inl @
                concat (map (\<lambda>t. block_text (?sp (path t)) (timestamp t) (?tx (path t))) rest)))"
    unfolding l .
  have "sorted (map (\<lambda>t. datetime_key (timestamp t)) (blocks_of inl @ rest))"
    using sorted_load_transcripts [of "transcript_dir fs"] unfolding ld .
  then have so: "sorted (map (\<lambda>t. datetime_key (timestamp t)) rest)"
    by (simp add: sorted_append)
  have k': "\<forall>t\<in>set (blocks_of inl @ rest).
              infer_speaker (path t) mapping = Inr (?sp (path t)) \<and>
              transcript_files fs (path t) = Some (?tx (path t))"
    using k unfolding ld .
  show ?thesis
    apply (rule exI [where x = mapping])
    apply (rule exI [where x = "?sp"])
    apply (rule exI [where x = "?tx"])
    apply (rule exI [where x = content])
    apply (rule exI [where x = inl])
    apply (rule exI [where x = rest])
    apply (intro conjI)
           apply (rule s)
          apply (rule c)
         apply (rule w)
        apply (rule ch)
       apply (rule ld)
      apply (rule k')
     apply (rule o)
    apply (rule so)
    done
qed

text \<open>
  C7, as amended. The claim has the merge skip a transcript file that cannot be read and
  go on. Nothing in the code catches the error of \<^verbatim>\<open>open\<close>: when a file of the
  directory whose name gives a timestamp cannot be read, the run ends with an error, the
  exit status is 1, and the files are as they were: nothing is written.
\<close>

theorem unreadable_transcript_aborts:
  assumes "n \<in> set (glob_txt (transcript_dir fs))"
    and "parse_transcript_timestamp n \<noteq> None"
    and "transcript_files fs n = None"
  shows "(\<exists>e. merge_transcripts fs = (Some e, fs)) \<and> exit_status fs = 1"
proof -
  from assms(2) obtain ts where "parse_transcript_timestamp n = Some ts" by auto
  then have "\<lparr>path = n, timestamp = ts\<rparr> \<in> set (load_transcripts (transcript_dir fs))"
    using assms(1) by (simp add: set_load_transcripts new_transcript_def)
  then have u: "\<exists>t\<in>set (load_transcripts (transcript_dir fs)). transcript_files fs (path t) = None"
    using assms(3) by force
  have f: "\<exists>e. merge_items fs mapping = Inl e" for mapping
    using u merge_items_resolved [of fs mapping] by (cases "merge_items fs mapping") auto
  have "\<exists>e. merge_transcripts fs = (Some e, fs)"
  proof (cases "load_settings (settings fs)")
    case (Inl e)
    then show ?thesis by (simp add: merge_transcripts_def)
  next
    case (Inr m)
    from f [of m] obtain e where "merge_items fs m = Inl e" ..
    with Inr show ?thesis by (simp add: merge_transcripts_def)
  qed
  then show ?thesis by (auto simp: exit_status_def)
qed

text \<open>
  C10, as amended. The claim has the output equal to the chat file when there are no
  transcripts. The output is the lines of the chat file joined by line feeds: with the
  settings loaded, no transcript, every chat line giving a time or none, and the output
  written, that is what is written. It is the chat file itself when the chat file has no
  line boundary other than the line feed and does not end in one.
\<close>

theorem no_transcripts_output:
  assumes "load_settings (settings fs) = Inr mapping"
    and "load_transcripts (transcript_dir fs) = []"
    and "chat_file fs = Some content"
    and "\<forall>l\<in>set (splitlines content). parse_chat_line_time l \<noteq> Inl ValueError"
    and "output_write fs = Written"
  shows "merge_transcripts fs =
           (None, fs\<lparr>output_file := Some (join_lines (splitlines content))\<rparr>) \<and>
         ((\<forall>c\<in>set content. is_linebreak c \<longrightarrow> c = CHR 0x0A) \<and>
          (content = [] \<or> last content \<noteq> CHR 0x0A) \<longrightarrow>
          join_lines (splitlines content) = content)"
proof -
  have "merge_transcripts fs =
           (None, fs\<lparr>output_file := Some (join_lines (splitlines content))\<rparr>)"
    using assms(1,5)
    by (simp add: merge_transcripts_def write_output_def
        merge_items_no_transcripts [OF assms(2,3,4)] result_lines_chat)
  moreover have "(\<forall>c\<in>set content. is_linebreak c \<longrightarrow> c = CHR 0x0A) \<and>
          (content = [] \<or> last content \<noteq> CHR 0x0A) \<longrightarrow>
          join_lines (splitlines content) = content"
    using join_splitlines_acc [of content "[]"] by (simp add: splitlines_def)
  ultimately show ?thesis by blast
qed


subsection \<open>The small conversation, evaluated\<close>

lemma new_transcript_max: "new_transcript max_name = Some max_transcript"
  by code_simp

lemma new_transcript_at60: "new_transcript at60_name = Some at60_transcript"
  by code_simp

lemma new_transcript_at61: "new_transcript at61_name = Some at61_transcript"
  by code_simp

lemma new_transcript_early: "new_transcript early_name = Some early_transcript"
  by code_simp

lemma parse_max: "parse_transcript_timestamp max_name = Some (timestamp max_transcript)"
  using new_transcript_Some [OF new_transcript_max] by simp


lemma parse_hallo_line: "parse_chat_line_time hallo_line = Inr (Some hallo_time)"
  by code_simp

lemma parse_bye_line: "parse_chat_line_time bye_line = Inr (Some bye_time)"
  by code_simp

lemma splitlines_hallo_line: "splitlines hallo_line = [hallo_line]"
  by code_simp

lemma splitlines_hallo_text: "splitlines hallo_text = [hallo_line]"
  by code_simp

lemma splitlines_hallo_bye: "splitlines hallo_bye_text = [hallo_line, bye_line]"
  by code_simp

lemma glob_max: "glob_txt (Some [max_name]) = [max_name]"
  by code_simp




lemma path_examples [simp]:
  "path max_transcript = max_name" "path at60_transcript = at60_name"
  "path at61_transcript = at61_name" "path early_transcript = early_name"
  by (simp_all add: max_transcript_def at60_transcript_def at61_transcript_def
      early_transcript_def)

lemma load_max: "load_transcripts (Some [max_name]) = [max_transcript]"
  by code_simp

lemma load_max_voice_note: "load_transcripts (Some [max_name, voice_note]) = [max_transcript]"
  by code_simp


lemma load_nothing: "load_transcripts (Some []) = []" "load_transcripts None = []"
  by (simp_all add: load_transcripts_def glob_txt_def List.map_filter_simps)

lemma load_at60_early:
  "load_transcripts (Some [at60_name, early_name]) = [early_transcript, at60_transcript]"
  by code_simp

lemma within_max: "within_tolerance hallo_time max_transcript"
  by (simp add: within_tolerance_def seconds_of_day_def hallo_time_def max_transcript_def)

lemma within_at60: "within_tolerance hallo_time at60_transcript"
  by (simp add: within_tolerance_def seconds_of_day_def hallo_time_def at60_transcript_def)

lemma within_at61: "\<not> within_tolerance hallo_time at61_transcript"
  by (simp add: within_tolerance_def seconds_of_day_def hallo_time_def at61_transcript_def)

lemma within_early_hallo: "\<not> within_tolerance hallo_time early_transcript"
  by (simp add: within_tolerance_def seconds_of_day_def hallo_time_def early_transcript_def)

lemma within_early_bye: "\<not> within_tolerance bye_time early_transcript"
  by (simp add: within_tolerance_def seconds_of_day_def bye_time_def early_transcript_def)

lemma lines_hallo_ok: "\<forall>l\<in>set (splitlines hallo_line). parse_chat_line_time l \<noteq> Inl ValueError"
  by (simp add: splitlines_hallo_line parse_hallo_line)

lemma speaker_examples:
  "infer_speaker max_name (Dict []) = Inr ''Max''"
  "infer_speaker at60_name (Dict []) = Inr ''Max''"
  "infer_speaker at61_name (Dict []) = Inr ''Max''"
  "infer_speaker early_name (Dict []) = Inr ''Max''"
  by code_simp+

lemma block_max:
  "block_of (\<lambda>n. ''Max'') (\<lambda>n. hi_text) max_transcript =
     Block max_transcript [''[Sprecher: Max | Audio: 14:05]'', ''Hi'', ''du'']"
  by code_simp

lemma block_at60:
  "block_of (\<lambda>n. ''Max'') (\<lambda>n. hi_text) at60_transcript =
     Block at60_transcript [''[Sprecher: Max | Audio: 14:06]'', ''Hi'', ''du'']"
  by code_simp

lemma block_at61:
  "block_of (\<lambda>n. ''Max'') (\<lambda>n. hi_text) at61_transcript =
     Block at61_transcript [''[Sprecher: Max | Audio: 14:06]'', ''Hi'', ''du'']"
  by code_simp

lemma block_early:
  "block_of (\<lambda>n. ''Max'') (\<lambda>n. hi_text) early_transcript =
     Block early_transcript [''[Sprecher: Max | Audio: 10:00]'', ''Hi'', ''du'']"
  by code_simp

lemma block_text_at60:
  "block_text ''Max'' (timestamp at60_transcript) hi_text =
     [''[Sprecher: Max | Audio: 14:06]'', ''Hi'', ''du'']"
  by code_simp

lemma block_text_max:
  "block_text ''Max'' (timestamp max_transcript) hi_text =
     [''[Sprecher: Max | Audio: 14:05]'', ''Hi'', ''du'']"
  by code_simp

lemma scenario_simps [simp]:
  "settings (scenario chat dir tfiles) = NoSettingsFile"
  "chat_file (scenario chat dir tfiles) = chat"
  "transcript_dir (scenario chat dir tfiles) = dir"
  "transcript_files (scenario chat dir tfiles) = tfiles"
  "output_file (scenario chat dir tfiles) = None"
  "output_write (scenario chat dir tfiles) = Written"
  by (simp_all add: scenario_def)

lemma load_no_settings: "load_settings NoSettingsFile = Inr (Dict [])"
  by (simp add: load_settings_def)

lemma run_written:
  assumes "load_settings (settings fs) = Inr mapping"
    and "merge_items fs mapping = Inr its"
    and "output_write fs = Written"
  shows "merge_transcripts fs = (None, fs\<lparr>output_file := Some (join_lines (result_lines its))\<rparr>)"
  using assms by (simp add: merge_transcripts_def write_output_def)

lemma walk_skip:
  assumes lt: "parse_chat_line_time line = Inr (Some lt)"
    and t: "new_transcript (path t) = Some t"
    and w: "\<not> within_tolerance lt t"
  shows "walk tfiles mapping (line # lines) (t # ts) =
           (case walk tfiles mapping lines (t # ts) of
              Inl e \<Rightarrow> Inl e
            | Inr (its, rest) \<Rightarrow> Inr (ChatLine line # its, rest))"
  using lt w
  by (simp add: consume_Cons [OF lt t] del: consume.simps split: sum.splits prod.splits)

lemma walk_hallo_max:
  "walk hi_files (Dict []) [hallo_line] [max_transcript] =
     Inr ([ChatLine hallo_line,
           Block max_transcript [''[Sprecher: Max | Audio: 14:05]'', ''Hi'', ''du'']], [])"
proof -
  have v: "\<forall>t\<in>set [max_transcript]. new_transcript (path t) = Some t"
    by (simp add: new_transcript_max)
  have r: "\<forall>t\<in>set (takeWhile (within_tolerance hallo_time) [max_transcript]).
             infer_speaker (path t) (Dict []) = Inr ((\<lambda>n. ''Max'') (path t)) \<and>
             hi_files (path t) = Some ((\<lambda>n. hi_text) (path t))"
    by (simp add: hi_files_def speaker_examples)
  show ?thesis
    unfolding walk_Cons_time [where speaker = "\<lambda>n. ''Max''" and ?text = "\<lambda>n. hi_text",
        OF parse_hallo_line v r]
    by (simp add: within_max block_max)
qed

lemma merge_items_hallo_max:
  "merge_items (scenario (Some hallo_line) (Some [max_name, voice_note]) hi_files) (Dict []) =
     Inr [ChatLine hallo_line,
          Block max_transcript [''[Sprecher: Max | Audio: 14:05]'', ''Hi'', ''du'']]"
  by (simp add: merge_items_def load_max_voice_note splitlines_hallo_line walk_hallo_max
      del: walk.simps)

lemma merge_transcripts_hallo_max:
  "merge_transcripts (scenario (Some hallo_line) (Some [max_name, voice_note]) hi_files) =
     (None, (scenario (Some hallo_line) (Some [max_name, voice_note]) hi_files)
        \<lparr>output_file := Some (hallo_line @ [CHR 0x0A] @ ''[Sprecher: Max | Audio: 14:05]'' @
            [CHR 0x0A] @ ''Hi'' @ [CHR 0x0A] @ ''du'')\<rparr>)"
proof -
  let ?fs = "scenario (Some hallo_line) (Some [max_name, voice_note]) hi_files"
  have "merge_transcripts ?fs = (None, ?fs\<lparr>output_file := Some (join_lines (result_lines
          [ChatLine hallo_line,
           Block max_transcript [''[Sprecher: Max | Audio: 14:05]'', ''Hi'', ''du'']]))\<rparr>)"
    by (rule run_written [OF _ merge_items_hallo_max]) (simp_all add: load_no_settings)
  then show ?thesis by (simp add: result_lines_def)
qed

lemma walk_hallo_bye:
  "walk hi_files (Dict []) [hallo_line, bye_line] [early_transcript, at60_transcript] =
     Inr ([ChatLine hallo_line, ChatLine bye_line], [early_transcript, at60_transcript])"
proof -
  have v: "new_transcript (path early_transcript) = Some early_transcript"
    by (simp add: new_transcript_early)
  show ?thesis
    unfolding walk_skip [OF parse_hallo_line v within_early_hallo]
      walk_skip [OF parse_bye_line v within_early_bye]
    by simp
qed

lemma merge_items_hallo_bye:
  "merge_items (scenario (Some hallo_bye_text) (Some [at60_name, early_name]) hi_files) (Dict []) =
     Inr [ChatLine hallo_line, ChatLine bye_line,
          Block early_transcript [''[Sprecher: Max | Audio: 10:00]'', ''Hi'', ''du''],
          Block at60_transcript [''[Sprecher: Max | Audio: 14:06]'', ''Hi'', ''du'']]"
proof -
  have "\<forall>t\<in>set [early_transcript, at60_transcript].
          infer_speaker (path t) (Dict []) = Inr ((\<lambda>n. ''Max'') (path t)) \<and>
          hi_files (path t) = Some ((\<lambda>n. hi_text) (path t))"
    by (simp add: hi_files_def speaker_examples)
  from append_remaining_succeeds [where speaker = "\<lambda>n. ''Max''" and ?text = "\<lambda>n. hi_text", OF this]
  have a: "append_remaining hi_files (Dict []) [early_transcript, at60_transcript] =
             Inr [Block early_transcript [''[Sprecher: Max | Audio: 10:00]'', ''Hi'', ''du''],
                  Block at60_transcript [''[Sprecher: Max | Audio: 14:06]'', ''Hi'', ''du'']]"
    by (simp add: block_early block_at60)
  show ?thesis
    by (simp add: merge_items_def load_at60_early splitlines_hallo_bye walk_hallo_bye a
        del: walk.simps append_remaining.simps)
qed

lemma merge_transcripts_hallo_bye:
  "merge_transcripts (scenario (Some hallo_bye_text) (Some [at60_name, early_name]) hi_files) =
     (None, (scenario (Some hallo_bye_text) (Some [at60_name, early_name]) hi_files)
        \<lparr>output_file := Some (hallo_line @ [CHR 0x0A] @ bye_line @ [CHR 0x0A] @
            ''[Sprecher: Max | Audio: 10:00]'' @ [CHR 0x0A] @ ''Hi'' @ [CHR 0x0A] @ ''du'' @
            [CHR 0x0A] @
            ''[Sprecher: Max | Audio: 14:06]'' @ [CHR 0x0A] @ ''Hi'' @ [CHR 0x0A] @ ''du'')\<rparr>)"
proof -
  let ?fs = "scenario (Some hallo_bye_text) (Some [at60_name, early_name]) hi_files"
  have "merge_transcripts ?fs = (None, ?fs\<lparr>output_file := Some (join_lines (result_lines
          [ChatLine hallo_line, ChatLine bye_line,
           Block early_transcript [''[Sprecher: Max | Audio: 10:00]'', ''Hi'', ''du''],
           Block at60_transcript [''[Sprecher: Max | Audio: 14:06]'', ''Hi'', ''du'']]))\<rparr>)"
    by (rule run_written [OF _ merge_items_hallo_bye]) (simp_all add: load_no_settings)
  then show ?thesis by (simp add: result_lines_def)
qed

subsection \<open>The claims on the small conversation\<close>

text \<open>
  Three transcripts at the chat line of 14:05: those of 14:05:30 and 14:06:00 follow the
  line, that of 14:06:01 stays at the cursor.
\<close>

theorem walk_chat_line_with_time_witness:
  "walk hi_files (Dict []) [hallo_line] [max_transcript, at60_transcript, at61_transcript] =
     Inr ([ChatLine hallo_line,
           Block max_transcript [''[Sprecher: Max | Audio: 14:05]'', ''Hi'', ''du''],
           Block at60_transcript [''[Sprecher: Max | Audio: 14:06]'', ''Hi'', ''du'']],
          [at61_transcript]) \<and>
   (\<exists>its. walk hi_files (Dict []) [hallo_line] [max_transcript, at60_transcript, at61_transcript] =
            Inr (its, [at61_transcript]) \<and>
          result_lines its =
            [hallo_line, ''[Sprecher: Max | Audio: 14:05]'', ''Hi'', ''du'',
             ''[Sprecher: Max | Audio: 14:06]'', ''Hi'', ''du''])"
proof -
  let ?ts = "[max_transcript, at60_transcript, at61_transcript]"
  have v: "\<forall>t\<in>set ?ts. new_transcript (path t) = Some t"
    by (simp add: new_transcript_max new_transcript_at60 new_transcript_at61)
  have tw: "takeWhile (within_tolerance hallo_time) ?ts = [max_transcript, at60_transcript]"
    and dw: "dropWhile (within_tolerance hallo_time) ?ts = [at61_transcript]"
    by (simp_all add: within_max within_at60 within_at61)
  have r: "\<forall>t\<in>set (takeWhile (within_tolerance hallo_time) ?ts).
             infer_speaker (path t) (Dict []) = Inr ((\<lambda>n. ''Max'') (path t)) \<and>
             hi_files (path t) = Some ((\<lambda>n. hi_text) (path t))"
    unfolding tw by (simp add: hi_files_def speaker_examples)
  note th = walk_chat_line_with_time [where speaker = "\<lambda>n. ''Max''" and ?text = "\<lambda>n. hi_text",
      OF parse_hallo_line v r, of "[]"]
  have e: "walk hi_files (Dict []) [] [at61_transcript] = Inr ([], [at61_transcript])" by simp
  from th [THEN conjunct1, unfolded tw dw list.map block_text_max block_text_at60 e]
  have a: "walk hi_files (Dict []) [hallo_line] ?ts =
     Inr ([ChatLine hallo_line,
           Block max_transcript [''[Sprecher: Max | Audio: 14:05]'', ''Hi'', ''du''],
           Block at60_transcript [''[Sprecher: Max | Audio: 14:06]'', ''Hi'', ''du'']],
          [at61_transcript])"
    by simp
  from th [THEN conjunct2, THEN conjunct1, unfolded tw dw list.map block_text_max block_text_at60,
      rule_format, OF e]
  have b: "\<exists>its. walk hi_files (Dict []) [hallo_line] ?ts = Inr (its, [at61_transcript]) \<and>
          result_lines its =
            [hallo_line, ''[Sprecher: Max | Audio: 14:05]'', ''Hi'', ''du'',
             ''[Sprecher: Max | Audio: 14:06]'', ''Hi'', ''du'']"
    by (simp add: result_lines_def)
  from a b show ?thesis by (rule conjI)
qed

text \<open>
  A transcript of 14:06:00 at the cursor is taken at the chat line of 14:05, one of
  14:06:01 is not; behind the transcript of 10:00:00, the one of 14:06:00 is not taken.
\<close>

theorem tolerance_boundary_witness:
  "consume hi_files (Dict []) hallo_time [at60_transcript] =
     Inr ([Block at60_transcript [''[Sprecher: Max | Audio: 14:06]'', ''Hi'', ''du'']], []) \<and>
   (\<exists>its. walk hi_files (Dict []) [hallo_line] [at60_transcript] = Inr (its, []) \<and>
          result_lines its = [hallo_line, ''[Sprecher: Max | Audio: 14:06]'', ''Hi'', ''du'']) \<and>
   walk hi_files (Dict []) [hallo_line] [at61_transcript] =
     Inr ([ChatLine hallo_line], [at61_transcript]) \<and>
   walk hi_files (Dict []) [hallo_line] [early_transcript, at60_transcript] =
     Inr ([ChatLine hallo_line], [early_transcript, at60_transcript])"
proof -
  have d60: "\<bar>int (seconds_of_day (timestamp at60_transcript)) - int (seconds_of_day hallo_time)\<bar> = 60"
    by (simp add: seconds_of_day_def hallo_time_def at60_transcript_def)
  have d61: "\<bar>int (seconds_of_day (timestamp at61_transcript)) - int (seconds_of_day hallo_time)\<bar> \<ge> 61"
    by (simp add: seconds_of_day_def hallo_time_def at61_transcript_def)
  have de: "new_transcript (path early_transcript) = Some early_transcript \<and>
     \<bar>int (seconds_of_day (timestamp early_transcript)) - int (seconds_of_day hallo_time)\<bar> > 60"
    by (simp add: new_transcript_early) (simp add: seconds_of_day_def hallo_time_def early_transcript_def)
  have v60: "new_transcript (path at60_transcript) = Some at60_transcript"
    by (simp add: new_transcript_at60)
  have v61: "new_transcript (path at61_transcript) = Some at61_transcript"
    by (simp add: new_transcript_at61)
  have s60: "infer_speaker (path at60_transcript) (Dict []) = Inr ''Max''"
    by (simp add: speaker_examples)
  have s61: "infer_speaker (path at61_transcript) (Dict []) = Inr ''Max''"
    by (simp add: speaker_examples)
  have r60: "hi_files (path at60_transcript) = Some hi_text" by (simp add: hi_files_def)
  have r61: "hi_files (path at61_transcript) = Some hi_text" by (simp add: hi_files_def)
  note th60 = tolerance_boundary [where tfiles = hi_files and t = at60_transcript
      and mapping = "Dict []" and ts = "[]", OF parse_hallo_line v60 s60 r60]
  note th61 = tolerance_boundary [where tfiles = hi_files and t = at61_transcript
      and mapping = "Dict []" and ts = "[]", OF parse_hallo_line v61 s61 r61]
  have e: "consume hi_files (Dict []) hallo_time [] = Inr ([], [])" by simp
  from th60 [THEN conjunct1, THEN mp, OF d60, THEN conjunct1, unfolded block_text_at60 e]
  have a: "consume hi_files (Dict []) hallo_time [at60_transcript] =
     Inr ([Block at60_transcript [''[Sprecher: Max | Audio: 14:06]'', ''Hi'', ''du'']], [])"
    by simp
  from th60 [THEN conjunct1, THEN mp, OF d60, THEN conjunct2, unfolded block_text_at60,
      rule_format, OF e]
  have b: "\<exists>its. walk hi_files (Dict []) [hallo_line] [at60_transcript] = Inr (its, []) \<and>
          result_lines its = [hallo_line, ''[Sprecher: Max | Audio: 14:06]'', ''Hi'', ''du'']"
    by (simp add: result_lines_def)
  from th61 [THEN conjunct2, THEN conjunct1, THEN mp, OF d61, THEN conjunct1]
  have c: "walk hi_files (Dict []) [hallo_line] [at61_transcript] =
     Inr ([ChatLine hallo_line], [at61_transcript])" .
  from th60 [THEN conjunct2, THEN conjunct2, rule_format, OF de]
  have d: "walk hi_files (Dict []) [hallo_line] [early_transcript, at60_transcript] =
     Inr ([ChatLine hallo_line], [early_transcript, at60_transcript])" .
  from a b c d show ?thesis by (intro conjI)
qed

text \<open>
  Against C3 as stated: the transcript of 14:06:00 is exactly 60 seconds from the chat
  line of 14:05. With the transcript of 10:00:00 in the directory, which is sorted before
  it and taken at no chat line, it is never at the cursor: its block is not behind that
  chat line but in the tail, behind the last chat line.
\<close>

theorem tolerance_cursor_counterexample:
  "parse_chat_line_time hallo_line = Inr (Some hallo_time) \<and>
   new_transcript at60_name = Some at60_transcript \<and>
   \<bar>int (seconds_of_day (timestamp at60_transcript)) - int (seconds_of_day hallo_time)\<bar> = 60 \<and>
   merge_transcripts (scenario (Some hallo_bye_text) (Some [at60_name, early_name]) hi_files) =
     (None, (scenario (Some hallo_bye_text) (Some [at60_name, early_name]) hi_files)
        \<lparr>output_file := Some (hallo_line @ [CHR 0x0A] @ bye_line @ [CHR 0x0A] @
            ''[Sprecher: Max | Audio: 10:00]'' @ [CHR 0x0A] @ ''Hi'' @ [CHR 0x0A] @ ''du'' @
            [CHR 0x0A] @
            ''[Sprecher: Max | Audio: 14:06]'' @ [CHR 0x0A] @ ''Hi'' @ [CHR 0x0A] @ ''du'')\<rparr>)"
proof -
  have "\<bar>int (seconds_of_day (timestamp at60_transcript)) - int (seconds_of_day hallo_time)\<bar> = 60"
    by (simp add: seconds_of_day_def hallo_time_def at60_transcript_def)
  with parse_hallo_line new_transcript_at60 merge_transcripts_hallo_bye
  show ?thesis by (intro conjI)
qed

text \<open>The run of the first scenario, with \<^verbatim>\<open>voice_note.txt\<close> in the directory as well.\<close>

theorem chat_lines_preserved_witness:
  "\<exists>mapping content its.
     load_settings (settings (scenario (Some hallo_line) (Some [max_name, voice_note]) hi_files))
       = Inr mapping \<and>
     chat_file (scenario (Some hallo_line) (Some [max_name, voice_note]) hi_files) = Some content \<and>
     merge_items (scenario (Some hallo_line) (Some [max_name, voice_note]) hi_files) mapping
       = Inr its \<and>
     output_file ((scenario (Some hallo_line) (Some [max_name, voice_note]) hi_files)
        \<lparr>output_file := Some (hallo_line @ [CHR 0x0A] @ ''[Sprecher: Max | Audio: 14:05]'' @
            [CHR 0x0A] @ ''Hi'' @ [CHR 0x0A] @ ''du'')\<rparr>)
       = Some (join_lines (result_lines its)) \<and>
     chat_lines_of its = splitlines content \<and>
     blocks_of its = load_transcripts
       (transcript_dir (scenario (Some hallo_line) (Some [max_name, voice_note]) hi_files)) \<and>
     subseq (splitlines content) (result_lines its)"
  by (rule chat_lines_preserved [OF merge_transcripts_hallo_max])



text \<open>
  Two transcripts left by the walk: the one of 10:00:00 and the one of 14:06:00 stand
  behind the last chat line, in this order, the reverse of the directory listing.
\<close>

theorem remaining_appended_at_end_witness:
  "\<exists>mapping speaker text content inline rest.
     load_settings (settings (scenario (Some hallo_bye_text) (Some [at60_name, early_name]) hi_files))
       = Inr mapping \<and>
     chat_file (scenario (Some hallo_bye_text) (Some [at60_name, early_name]) hi_files)
       = Some content \<and>
     walk (transcript_files (scenario (Some hallo_bye_text) (Some [at60_name, early_name]) hi_files))
       mapping (splitlines content)
       (load_transcripts
         (transcript_dir (scenario (Some hallo_bye_text) (Some [at60_name, early_name]) hi_files)))
       = Inr (inline, rest) \<and>
     chat_lines_of inline = splitlines content \<and>
     load_transcripts
       (transcript_dir (scenario (Some hallo_bye_text) (Some [at60_name, early_name]) hi_files))
       = blocks_of inline @ rest \<and>
     (\<forall>t\<in>set (blocks_of inline @ rest).
        infer_speaker (path t) mapping = Inr (speaker (path t)) \<and>
        transcript_files (scenario (Some hallo_bye_text) (Some [at60_name, early_name]) hi_files)
          (path t) = Some (text (path t))) \<and>
     output_file ((scenario (Some hallo_bye_text) (Some [at60_name, early_name]) hi_files)
        \<lparr>output_file := Some (hallo_line @ [CHR 0x0A] @ bye_line @ [CHR 0x0A] @
            ''[Sprecher: Max | Audio: 10:00]'' @ [CHR 0x0A] @ ''Hi'' @ [CHR 0x0A] @ ''du'' @
            [CHR 0x0A] @
            ''[Sprecher: Max | Audio: 14:06]'' @ [CHR 0x0A] @ ''Hi'' @ [CHR 0x0A] @ ''du'')\<rparr>) =
       Some (join_lines
         (written_lines speaker text inline @
          concat (map (\<lambda>t. block_text (speaker (path t)) (timestamp t) (text (path t))) rest))) \<and>
     sorted (map (\<lambda>t. datetime_key (timestamp t)) rest)"
  by (rule remaining_appended_at_end [OF merge_transcripts_hallo_bye])

text \<open>The first scenario with a transcript file that cannot be read.\<close>

theorem unreadable_transcript_aborts_witness:
  "(\<exists>e. merge_transcripts (scenario (Some hallo_line) (Some [max_name]) no_files) =
          (Some e, scenario (Some hallo_line) (Some [max_name]) no_files)) \<and>
   exit_status (scenario (Some hallo_line) (Some [max_name]) no_files) = 1"
proof -
  let ?fs = "scenario (Some hallo_line) (Some [max_name]) no_files"
  have g: "max_name \<in> set (glob_txt (transcript_dir ?fs))" by (simp add: glob_max)
  have p: "parse_transcript_timestamp max_name \<noteq> None" by (simp add: parse_max)
  have u: "transcript_files ?fs max_name = None" by (simp add: no_files_def)
  show ?thesis by (rule unreadable_transcript_aborts [OF g p u])
qed

text \<open>
  Against C7 as stated: with the transcript file unreadable the run ends with the error of
  \<^verbatim>\<open>open\<close>, and no output is written.
\<close>

theorem unreadable_transcript_counterexample:
  "fst (merge_transcripts (scenario (Some hallo_line) (Some [max_name]) no_files)) =
     Some (OSError (TranscriptFile max_name)) \<and>
   output_file (snd (merge_transcripts (scenario (Some hallo_line) (Some [max_name]) no_files))) = None"
proof -
  let ?fs = "scenario (Some hallo_line) (Some [max_name]) no_files"
  have "consume no_files (Dict []) hallo_time [max_transcript] = Inl (OSError (TranscriptFile max_name))"
    using within_max
    by (simp add: consume_Cons [OF parse_hallo_line] new_transcript_max no_files_def
        speaker_examples del: consume.simps)
  then have "merge_items ?fs (Dict []) = Inl (OSError (TranscriptFile max_name))"
    by (simp add: merge_items_def load_max splitlines_hallo_line parse_hallo_line)
  then show ?thesis by (simp add: merge_transcripts_def load_no_settings)
qed

text \<open>Without transcripts, the chat line of the first scenario is written as it is.\<close>

theorem no_transcripts_output_witness:
  "merge_transcripts (scenario (Some hallo_line) (Some []) no_files) =
     (None, (scenario (Some hallo_line) (Some []) no_files)\<lparr>output_file := Some hallo_line\<rparr>)"
proof -
  let ?fs = "scenario (Some hallo_line) (Some []) no_files"
  have s: "load_settings (settings ?fs) = Inr (Dict [])" by (simp add: load_no_settings)
  have l: "load_transcripts (transcript_dir ?fs) = []" by (simp add: load_nothing)
  have c: "chat_file ?fs = Some hallo_line" by simp
  have w: "output_write ?fs = Written" by simp
  note t = no_transcripts_output [OF s l c lines_hallo_ok w]
  have lb: "(\<forall>c\<in>set hallo_line. is_linebreak c \<longrightarrow> c = CHR 0x0A) \<and>
            (hallo_line = [] \<or> last hallo_line \<noteq> CHR 0x0A)"
    by (simp add: hallo_line_def is_linebreak_def)
  from t lb have j: "join_lines (splitlines hallo_line) = hallo_line" by blast
  from t have "merge_transcripts ?fs =
      (None, ?fs\<lparr>output_file := Some (join_lines (splitlines hallo_line))\<rparr>)"
    by (rule conjunct1)
  then show ?thesis unfolding j .
qed

text \<open>
  Against C10 as stated: the chat file is the chat line and a line feed, there is no
  transcript, and the output is the chat line without the line feed.
\<close>

theorem no_transcripts_output_counterexample:
  "glob_txt (transcript_dir (scenario (Some hallo_text) (Some []) no_files)) = [] \<and>
   chat_file (scenario (Some hallo_text) (Some []) no_files) = Some (hallo_line @ [CHR 0x0A]) \<and>
   output_file (snd (merge_transcripts (scenario (Some hallo_text) (Some []) no_files))) =
     Some hallo_line \<and>
   output_file (snd (merge_transcripts (scenario (Some hallo_text) (Some []) no_files))) \<noteq>
     chat_file (scenario (Some hallo_text) (Some []) no_files)"
proof -
  let ?fs = "scenario (Some hallo_text) (Some []) no_files"
  have l: "load_transcripts (transcript_dir ?fs) = []" by (simp add: load_nothing)
  have c: "chat_file ?fs = Some hallo_text" by simp
  have p: "\<forall>l\<in>set (splitlines hallo_text). parse_chat_line_time l \<noteq> Inl ValueError"
    by (simp add: splitlines_hallo_text parse_hallo_line)
  have "merge_items ?fs (Dict []) = Inr (map ChatLine (splitlines hallo_text))"
    using l c p by (rule merge_items_no_transcripts)
  then have m: "merge_items ?fs (Dict []) = Inr [ChatLine hallo_line]"
    by (simp add: splitlines_hallo_text)
  have "merge_transcripts ?fs =
          (None, ?fs\<lparr>output_file := Some (join_lines (result_lines [ChatLine hallo_line]))\<rparr>)"
    by (rule run_written [OF _ m]) (simp_all add: load_no_settings)
  then show ?thesis
    by (simp add: result_lines_def glob_txt_def hallo_text_def)
qed



subsection \<open>The speaker resolver\<close>

lemma digits_n_Some:
  "digits_n n s = Some (a, rest) \<longleftrightarrow> s = a @ rest \<and> length a = n \<and> list_all is_digit a"
  by (auto simp: digits_n_def append_eq_conv_conj min_def)

lemma lit_Some: "lit c s = Some rest \<longleftrightarrow> s = c # rest"
  by (auto simp: lit_def split: list.splits)

lemma lits_Some: "lits w s = Some rest \<longleftrightarrow> s = w @ rest"
  by (auto simp: lits_def prefix_def)

lemma first_some_None: "first_some xs = None \<longleftrightarrow> (\<forall>x\<in>set xs. x = None)"
  by (induction xs rule: first_some.induct) auto

lemma first_some_Some: "first_some xs = Some r \<Longrightarrow> Some r \<in> set xs"
  by (induction xs rule: first_some.induct) auto

lemma first_some_append_None:
  "\<forall>x\<in>set xs. x = None \<Longrightarrow> first_some (xs @ ys) = first_some ys"
  by (induction xs rule: first_some.induct) auto

lemma take_le_takeWhile:
  "n \<le> length (takeWhile P s) \<Longrightarrow> list_all P (take n s)"
proof (induction s arbitrary: n)
  case Nil
  then show ?case by simp
next
  case (Cons c cs)
  then show ?case by (cases n) (auto split: if_splits)
qed

lemma length_takeWhile_append:
  "list_all P a \<Longrightarrow> length a \<le> length (takeWhile P (a @ b))"
  by (induction a) auto

lemma takeWhile_run:
  "list_all P a \<Longrightarrow> \<not> P c \<Longrightarrow> takeWhile P (a @ c # b) = a"
  by (induction a) auto

lemma greedy_plus_Some:
  assumes "greedy_plus P k s = Some r"
  shows "\<exists>a b. s = a @ b \<and> a \<noteq> [] \<and> list_all P a \<and> k a b = Some r"
proof -
  from first_some_Some [OF assms [unfolded greedy_plus_def]]
  obtain n where n: "1 \<le> n" "n \<le> length (takeWhile P s)" "k (take n s) (drop n s) = Some r"
    by auto
  have "length (takeWhile P s) \<le> length s" by (rule length_takeWhile_le)
  with n have "take n s \<noteq> []" by auto
  moreover have "list_all P (take n s)" using n(2) by (rule take_le_takeWhile)
  ultimately show ?thesis using n(3) by (metis append_take_drop_id)
qed

lemma greedy_plus_not_None:
  assumes "a \<noteq> []" "list_all P a" "k a b \<noteq> None"
  shows "greedy_plus P k (a @ b) \<noteq> None"
proof
  let ?n = "length a"
  let ?L = "length (takeWhile P (a @ b))"
  let ?f = "\<lambda>n. k (take n (a @ b)) (drop n (a @ b))"
  let ?ns = "rev [1 ..< Suc ?L]"
  assume "greedy_plus P k (a @ b) = None"
  then have none: "\<forall>x\<in>set (map ?f ?ns). x = None"
    unfolding greedy_plus_def by (simp only: first_some_None)
  have n1: "1 \<le> ?n" using assms(1) by (cases a) auto
  have nL: "?n \<le> ?L" using assms(2) by (rule length_takeWhile_append)
  have "?n \<in> {1 ..< Suc ?L}" using n1 nL by simp
  then have "?n \<in> set ?ns" by (simp only: set_rev set_upt)
  then have "?f ?n \<in> set (map ?f ?ns)" unfolding list.set_map by (rule imageI)
  with none have "?f ?n = None" by blast
  moreover have "?f ?n = k a b" by simp
  ultimately show False using assms(3) by simp
qed

lemma upt_split_at:
  assumes "1 \<le> n" "n \<le> L"
  shows "[1 ..< Suc L] = [1 ..< n] @ n # [Suc n ..< Suc L]"
proof -
  have s: "n + (Suc L - n) = Suc L" using assms(2) by simp
  have "[1 ..< n + (Suc L - n)] = [1 ..< n] @ [n ..< n + (Suc L - n)]"
    using assms(1) by (rule upt_add_eq_append)
  then have e1: "[1 ..< Suc L] = [1 ..< n] @ [n ..< Suc L]" unfolding s .
  have "n < Suc L" using assms(2) by simp
  then have e2: "[n ..< Suc L] = n # [Suc n ..< Suc L]" by (rule upt_conv_Cons)
  show ?thesis unfolding e1 e2 ..
qed

lemma greedy_plus_longest:
  assumes "a \<noteq> []" "list_all P a" "k a b = Some r"
    and "\<forall>m. length a < m \<and> m \<le> length (takeWhile P (a @ b)) \<longrightarrow>
           k (take m (a @ b)) (drop m (a @ b)) = None"
  shows "greedy_plus P k (a @ b) = Some r"
proof -
  let ?s = "a @ b"
  let ?L = "length (takeWhile P ?s)"
  let ?n = "length a"
  let ?f = "\<lambda>n. k (take n ?s) (drop n ?s)"
  have n1: "1 \<le> ?n" using assms(1) by (cases a) auto
  have nL: "?n \<le> ?L" using assms(2) by (rule length_takeWhile_append)
  have m: "map ?f (rev [1 ..< Suc ?L]) =
      map ?f (rev [Suc ?n ..< Suc ?L]) @ ?f ?n # map ?f (rev [1 ..< ?n])"
    unfolding upt_split_at [OF n1 nL] by simp
  have none: "\<forall>x\<in>set (map ?f (rev [Suc ?n ..< Suc ?L])). x = None"
    using assms(4) by auto
  have "greedy_plus P k ?s = first_some (?f ?n # map ?f (rev [1 ..< ?n]))"
    unfolding greedy_plus_def m by (rule first_some_append_None [OF none])
  then show ?thesis using assms(3) by simp
qed

lemma re_search_Some:
  "re_search p s = Some r \<Longrightarrow> \<exists>pre suf. s = pre @ suf \<and> p suf = Some r"
proof (induction s)
  case Nil
  then show ?case by simp
next
  case (Cons c cs)
  show ?case
  proof (cases "p (c # cs)")
    case None
    with Cons obtain pre suf where "cs = pre @ suf" "p suf = Some r" by auto
    then have "c # cs = (c # pre) @ suf" by simp
    with \<open>p suf = Some r\<close> show ?thesis by blast
  next
    case (Some x)
    with Cons.prems have "p (c # cs) = Some r" by simp
    then show ?thesis by (metis append_Nil)
  qed
qed

lemma re_search_not_None:
  "p suf \<noteq> None \<Longrightarrow> re_search p (pre @ suf) \<noteq> None"
proof (induction pre)
  case Nil
  then show ?case by (cases suf) auto
next
  case (Cons c pre)
  then show ?case by (auto split: option.splits)
qed

lemma re_search_skip:
  assumes "\<forall>c cs. c \<in> set pre \<longrightarrow> p (c # cs) = None"
  shows "re_search p (pre @ suf) = re_search p suf"
  using assms by (induction pre) auto

lemma re_search_here:
  "p (c # cs) = Some r \<Longrightarrow> re_search p (c # cs) = Some r"
  by simp

lemma date_pattern_Some:
  "date_pattern s = Some ((y, m, d), rest) \<longleftrightarrow>
     s = y @ ''-'' @ m @ ''-'' @ d @ rest \<and> length y = 4 \<and> length m = 2 \<and> length d = 2 \<and>
     list_all is_digit y \<and> list_all is_digit m \<and> list_all is_digit d"
  by (auto simp: date_pattern_def bind_eq_Some_conv digits_n_Some lit_Some)

lemma name_tail_Some:
  "greedy_plus (\<lambda>c. c \<noteq> CHR 0x0A) (\<lambda>name s5. do { s6 \<leftarrow> lits ''.txt'' s5; Some name }) s4 = Some r \<Longrightarrow>
     \<exists>post. s4 = r @ ''.txt'' @ post \<and> r \<noteq> [] \<and> CHR 0x0A \<notin> set r"
  by (drule greedy_plus_Some) (auto simp: bind_eq_Some_conv lits_Some list_all_iff)

lemma dated_name_pattern_Some:
  assumes "dated_name_pattern s = Some name"
  shows "\<exists>y m d run post.
           s = y @ ''-'' @ m @ ''-'' @ d @ ''_'' @ run @ ''_'' @ name @ ''.txt'' @ post \<and>
           length y = 4 \<and> length m = 2 \<and> length d = 2 \<and>
           list_all is_digit y \<and> list_all is_digit m \<and> list_all is_digit d \<and>
           run \<noteq> [] \<and> list_all (\<lambda>c. is_digit c \<or> c = CHR ''-'') run \<and>
           name \<noteq> [] \<and> CHR 0x0A \<notin> set name"
proof -
  from assms obtain y m d s2 where dp: "date_pattern s = Some ((y, m, d), CHR ''_'' # s2)"
    and g: "greedy_plus (\<lambda>c. is_digit c \<or> c = CHR ''-'')
       (\<lambda>run s3. do {
          s4 \<leftarrow> lit CHR ''_'' s3;
          greedy_plus (\<lambda>c. c \<noteq> CHR 0x0A)
            (\<lambda>name s5. do { s6 \<leftarrow> lits ''.txt'' s5; Some name }) s4
        }) s2 = Some name"
    by (auto simp: dated_name_pattern_def bind_eq_Some_conv lit_Some)
  from greedy_plus_Some [OF g] obtain run s4 where
    r: "s2 = run @ CHR ''_'' # s4" "run \<noteq> []" "list_all (\<lambda>c. is_digit c \<or> c = CHR ''-'') run"
    and t: "greedy_plus (\<lambda>c. c \<noteq> CHR 0x0A)
            (\<lambda>name s5. do { s6 \<leftarrow> lits ''.txt'' s5; Some name }) s4 = Some name"
    by (auto simp: bind_eq_Some_conv lit_Some)
  from name_tail_Some [OF t] obtain post where
    n: "s4 = name @ ''.txt'' @ post" "name \<noteq> []" "CHR 0x0A \<notin> set name" by blast
  from dp have e: "s = y @ ''-'' @ m @ ''-'' @ d @ CHR ''_'' # s2" and
    c: "length y = 4 \<and> length m = 2 \<and> length d = 2 \<and>
     list_all is_digit y \<and> list_all is_digit m \<and> list_all is_digit d"
    by (simp_all add: date_pattern_Some)
  have "s = y @ ''-'' @ m @ ''-'' @ d @ ''_'' @ run @ ''_'' @ name @ ''.txt'' @ post"
    using e r(1) n(1) by simp
  with c r(2,3) n(2,3) show ?thesis by blast
qed

lemma dated_name_pattern_at:
  assumes "length y = 4" "length m = 2" "length d = 2"
    and "list_all is_digit y" "list_all is_digit m" "list_all is_digit d"
  shows "dated_name_pattern (y @ ''-'' @ m @ ''-'' @ d @ ''_'' @ rest) =
     greedy_plus (\<lambda>c. is_digit c \<or> c = CHR ''-'')
       (\<lambda>run s3. do {
          s4 \<leftarrow> lit CHR ''_'' s3;
          greedy_plus (\<lambda>c. c \<noteq> CHR 0x0A)
            (\<lambda>name s5. do { s6 \<leftarrow> lits ''.txt'' s5; Some name }) s4
        }) rest"
proof -
  have "date_pattern (y @ ''-'' @ m @ ''-'' @ d @ ''_'' @ rest) = Some ((y, m, d), ''_'' @ rest)"
    using assms by (simp add: date_pattern_Some)
  then show ?thesis by (simp add: dated_name_pattern_def lit_def)
qed

lemma dated_name_pattern_complete:
  assumes "length y = 4" "length m = 2" "length d = 2"
    and "list_all is_digit y" "list_all is_digit m" "list_all is_digit d"
    and "run \<noteq> []" "list_all (\<lambda>c. is_digit c \<or> c = CHR ''-'') run"
    and "name \<noteq> []" "CHR 0x0A \<notin> set name"
  shows "dated_name_pattern (y @ ''-'' @ m @ ''-'' @ d @ ''_'' @ run @ ''_'' @ name @ ''.txt'' @ post)
           \<noteq> None"
proof -
  have nl: "list_all (\<lambda>c. c \<noteq> CHR 0x0A) name" using assms(10) by (auto simp: list_all_iff)
  have "greedy_plus (\<lambda>c. c \<noteq> CHR 0x0A)
            (\<lambda>name s5. do { s6 \<leftarrow> lits ''.txt'' s5; Some name }) (name @ ''.txt'' @ post) \<noteq> None"
    using assms(9) nl by (rule greedy_plus_not_None) (simp add: lits_def)
  then have "greedy_plus (\<lambda>c. is_digit c \<or> c = CHR ''-'')
       (\<lambda>run s3. do {
          s4 \<leftarrow> lit CHR ''_'' s3;
          greedy_plus (\<lambda>c. c \<noteq> CHR 0x0A)
            (\<lambda>name s5. do { s6 \<leftarrow> lits ''.txt'' s5; Some name }) s4
        }) (run @ ''_'' @ name @ ''.txt'' @ post) \<noteq> None"
    using assms(7,8) by (intro greedy_plus_not_None) (simp_all add: lit_def)
  then show ?thesis
    using dated_name_pattern_at [OF assms(1-6), of "run @ ''_'' @ name @ ''.txt'' @ post"] by simp
qed

lemma lits_txt_short: "length s < 4 \<Longrightarrow> lits ''.txt'' s = None"
  by (auto simp: lits_def prefix_def)

lemma name_tail_exact:
  assumes "name \<noteq> []" "CHR 0x0A \<notin> set name"
  shows "greedy_plus (\<lambda>c. c \<noteq> CHR 0x0A) (\<lambda>name s5. do { s6 \<leftarrow> lits ''.txt'' s5; Some name })
           (name @ ''.txt'') = Some name"
proof (rule greedy_plus_longest)
  show "name \<noteq> []" by (rule assms(1))
  show "list_all (\<lambda>c. c \<noteq> CHR 0x0A) name" using assms(2) by (auto simp: list_all_iff)
  show "do { s6 \<leftarrow> lits ''.txt'' ''.txt''; Some name } = Some name" by (simp add: lits_def)
  show "\<forall>m. length name < m \<and>
          m \<le> length (takeWhile (\<lambda>c. c \<noteq> CHR 0x0A) (name @ ''.txt'')) \<longrightarrow>
          do { s6 \<leftarrow> lits ''.txt'' (drop m (name @ ''.txt'')); Some (take m (name @ ''.txt'')) } = None"
  proof (intro allI impI)
    fix m
    assume "length name < m \<and> m \<le> length (takeWhile (\<lambda>c. c \<noteq> CHR 0x0A) (name @ ''.txt''))"
    then have "length (drop m (name @ ''.txt'')) < 4" by auto
    then have "lits ''.txt'' (drop m (name @ ''.txt'')) = None" by (rule lits_txt_short)
    then show "do { s6 \<leftarrow> lits ''.txt'' (drop m (name @ ''.txt'')); Some (take m (name @ ''.txt'')) } = None"
      by simp
  qed
qed

lemma dated_name_pattern_exact:
  assumes "length y = 4" "length m = 2" "length d = 2"
    and "list_all is_digit y" "list_all is_digit m" "list_all is_digit d"
    and "run \<noteq> []" "list_all (\<lambda>c. is_digit c \<or> c = CHR ''-'') run"
    and "name \<noteq> []" "CHR 0x0A \<notin> set name"
  shows "dated_name_pattern (y @ ''-'' @ m @ ''-'' @ d @ ''_'' @ run @ ''_'' @ name @ ''.txt'')
           = Some name"
proof -
  let ?K = "\<lambda>run s3. do {
          s4 \<leftarrow> lit CHR ''_'' s3;
          greedy_plus (\<lambda>c. c \<noteq> CHR 0x0A)
            (\<lambda>name s5. do { s6 \<leftarrow> lits ''.txt'' s5; Some name }) s4
        }"
  let ?P = "\<lambda>c. is_digit c \<or> c = CHR ''-''"
  have tw: "takeWhile ?P (run @ CHR ''_'' # name @ ''.txt'') = run"
    using assms(8) by (rule takeWhile_run) (simp add: is_digit_def)
  have "greedy_plus ?P ?K (run @ ''_'' @ name @ ''.txt'') = Some name"
  proof (rule greedy_plus_longest)
    show "run \<noteq> []" by (rule assms(7))
    show "list_all ?P run" by (rule assms(8))
    show "?K run (''_'' @ name @ ''.txt'') = Some name"
      using name_tail_exact [OF assms(9,10)] by (simp add: lit_def)
    show "\<forall>m. length run < m \<and> m \<le> length (takeWhile ?P (run @ ''_'' @ name @ ''.txt'')) \<longrightarrow>
            ?K (take m (run @ ''_'' @ name @ ''.txt'')) (drop m (run @ ''_'' @ name @ ''.txt'')) = None"
    proof (intro allI impI)
      fix m
      assume "length run < m \<and> m \<le> length (takeWhile ?P (run @ ''_'' @ name @ ''.txt''))"
      with tw have False by auto
      then show "?K (take m (run @ ''_'' @ name @ ''.txt'')) (drop m (run @ ''_'' @ name @ ''.txt'')) = None" ..
    qed
  qed
  then show ?thesis
    using dated_name_pattern_at [OF assms(1-6), of "run @ ''_'' @ name @ ''.txt''"] by simp
qed

lemma loose_name_pattern_Some:
  assumes "loose_name_pattern s = Some name"
  shows "\<exists>e. s = ''_'' @ name @ ''.txt'' @ e \<and> (e = [] \<or> e = [CHR 0x0A]) \<and>
           name \<noteq> [] \<and> list_all is_word name"
proof -
  from assms obtain s1 where s1: "s = CHR ''_'' # s1"
    and g: "greedy_plus is_word
       (\<lambda>name s2. do {
          s3 \<leftarrow> lits ''.txt'' s2;
          if s3 = [] \<or> s3 = [CHR 0x0A] then Some name else None
        }) s1 = Some name"
    by (auto simp: loose_name_pattern_def bind_eq_Some_conv lit_Some)
  from greedy_plus_Some [OF g] obtain a e where
    "s1 = a @ ''.txt'' @ e" "a \<noteq> []" "list_all is_word a" "e = [] \<or> e = [CHR 0x0A]" "a = name"
    by (auto simp: bind_eq_Some_conv lits_Some split: if_splits)
  with s1 show ?thesis by auto
qed

lemma loose_name_pattern_exact:
  assumes "name \<noteq> []" "list_all is_word name" "e = [] \<or> e = [CHR 0x0A]"
  shows "loose_name_pattern (''_'' @ name @ ''.txt'' @ e) = Some name"
proof -
  let ?K = "\<lambda>name s2. do {
          s3 \<leftarrow> lits ''.txt'' s2;
          if s3 = [] \<or> s3 = [CHR 0x0A] then Some name else None
        }"
  have tw: "takeWhile is_word (name @ CHR ''.'' # ''txt'' @ e) = name"
    using assms(2) by (rule takeWhile_run) (simp add: is_word_def)
  have "greedy_plus is_word ?K (name @ ''.txt'' @ e) = Some name"
  proof (rule greedy_plus_longest)
    show "name \<noteq> []" by (rule assms(1))
    show "list_all is_word name" by (rule assms(2))
    show "?K name (''.txt'' @ e) = Some name" using assms(3) by (auto simp: lits_def)
    show "\<forall>m. length name < m \<and> m \<le> length (takeWhile is_word (name @ ''.txt'' @ e)) \<longrightarrow>
            ?K (take m (name @ ''.txt'' @ e)) (drop m (name @ ''.txt'' @ e)) = None"
    proof (intro allI impI)
      fix m
      assume "length name < m \<and> m \<le> length (takeWhile is_word (name @ ''.txt'' @ e))"
      with tw have False by auto
      then show "?K (take m (name @ ''.txt'' @ e)) (drop m (name @ ''.txt'' @ e)) = None" ..
    qed
  qed
  then show ?thesis by (simp add: loose_name_pattern_def lit_def)
qed

lemma loose_name_pattern_not_underscore:
  "c \<noteq> CHR ''_'' \<Longrightarrow> loose_name_pattern (c # cs) = None"
  by (simp add: loose_name_pattern_def lit_def)

lemma mapping_loop_find:
  "mapping_loop lower_name (map (\<lambda>(k, v). (StrKey k, v)) mapping) =
     Inr (map_option snd (find (\<lambda>kv. sublist (lower (fst kv)) lower_name) mapping))"
  by (induction mapping) auto

lemma infer_speaker_found:
  assumes "find (\<lambda>kv. sublist (lower (fst kv)) (lower filename)) mapping = Some kv"
  shows "infer_speaker filename (str_dict mapping) = Inr (snd kv)"
  using assms by (simp add: infer_speaker_def str_dict_def mapping_loop_find)

lemma infer_speaker_patterns:
  assumes "find (\<lambda>kv. sublist (lower (fst kv)) (lower filename)) mapping = None"
  shows "infer_speaker filename (str_dict mapping) =
           (case re_search dated_name_pattern filename of
              Some name \<Rightarrow> Inr name
            | None \<Rightarrow> (case re_search loose_name_pattern filename of
                         Some name \<Rightarrow> Inr name | None \<Rightarrow> Inr ''Unbekannt''))"
  using assms by (simp add: infer_speaker_def str_dict_def mapping_loop_find)

lemma dated_search_Some:
  assumes "re_search dated_name_pattern filename = Some name"
  shows "dated_shape filename name"
proof -
  from re_search_Some [OF assms] obtain pre suf where
    f: "filename = pre @ suf" and p: "dated_name_pattern suf = Some name" by blast
  from dated_name_pattern_Some [OF p] f show ?thesis
    unfolding dated_shape_def by blast
qed

lemma dated_search_complete:
  assumes "dated_shape filename name"
  shows "re_search dated_name_pattern filename \<noteq> None"
proof -
  from assms obtain pre y m d run post where
    f: "filename = pre @ (y @ ''-'' @ m @ ''-'' @ d @ ''_'' @ run @ ''_'' @ name @ ''.txt'' @ post)"
    and c: "length y = 4" "length m = 2" "length d = 2"
      "list_all is_digit y" "list_all is_digit m" "list_all is_digit d"
      "run \<noteq> []" "list_all (\<lambda>c. is_digit c \<or> c = CHR ''-'') run"
      "name \<noteq> []" "CHR 0x0A \<notin> set name"
    unfolding dated_shape_def by auto
  show ?thesis unfolding f
    by (rule re_search_not_None) (rule dated_name_pattern_complete [OF c])
qed

lemma dated_search_exact:
  assumes "length y = 4" "length m = 2" "length d = 2"
    and "list_all is_digit y" "list_all is_digit m" "list_all is_digit d"
    and "run \<noteq> []" "list_all (\<lambda>c. is_digit c \<or> c = CHR ''-'') run"
    and "name \<noteq> []" "CHR 0x0A \<notin> set name"
  shows "re_search dated_name_pattern
           (y @ ''-'' @ m @ ''-'' @ d @ ''_'' @ run @ ''_'' @ name @ ''.txt'') = Some name"
proof -
  let ?f = "y @ ''-'' @ m @ ''-'' @ d @ ''_'' @ run @ ''_'' @ name @ ''.txt''"
  obtain c cs where "?f = c # cs" using assms(1) by (cases y) auto
  moreover have "dated_name_pattern ?f = Some name" by (rule dated_name_pattern_exact [OF assms])
  ultimately show ?thesis by (metis re_search_here)
qed

lemma loose_search_Some:
  assumes "re_search loose_name_pattern filename = Some name"
  shows "loose_shape filename name"
proof -
  from re_search_Some [OF assms] obtain pre suf where
    f: "filename = pre @ suf" and p: "loose_name_pattern suf = Some name" by blast
  from loose_name_pattern_Some [OF p] f show ?thesis
    unfolding loose_shape_def by blast
qed

lemma loose_search_complete:
  assumes "loose_shape filename name"
  shows "re_search loose_name_pattern filename \<noteq> None"
proof -
  from assms obtain pre e where
    f: "filename = pre @ (''_'' @ name @ ''.txt'' @ e)"
    and c: "name \<noteq> []" "list_all is_word name" "e = [] \<or> e = [CHR 0x0A]"
    unfolding loose_shape_def by auto
  show ?thesis unfolding f
    by (rule re_search_not_None) (simp only: loose_name_pattern_exact [OF c] option.distinct not_False_eq_True)
qed

lemma loose_search_exact:
  assumes "CHR ''_'' \<notin> set pre" "name \<noteq> []" "list_all is_word name"
  shows "re_search loose_name_pattern (pre @ ''_'' @ name @ ''.txt'') = Some name"
proof -
  have "\<forall>c cs. c \<in> set pre \<longrightarrow> loose_name_pattern (c # cs) = None"
    using assms(1) by (auto intro: loose_name_pattern_not_underscore)
  then have "re_search loose_name_pattern (pre @ ''_'' @ name @ ''.txt'') =
               re_search loose_name_pattern (''_'' @ name @ ''.txt'')"
    by (rule re_search_skip)
  also have "\<dots> = Some name"
    using loose_name_pattern_exact [OF assms(2,3), of "[]"] by simp
  finally show ?thesis .
qed

text \<open>
  C9, as amended. The claim has the resolver return the trailing name segment of a file
  name. What the code returns is what its two patterns capture, and that can hold
  underscores. The resolver is a function of the file name and the mapping, here a
  dictionary of strings, and reads them in this order. When a key of the mapping, in lower
  case, is part of the file name in lower case, the result is the value of the first such
  key. Otherwise, when the name has the dated shape, the result is a speaker of that
  shape; for a name that is a date, a run of digits and hyphens and a rest, joined by
  underscores and followed by \<^verbatim>\<open>.txt\<close>, it is the whole rest, underscores included.
  Otherwise, when the name has the loose shape, the result is a speaker of that shape; for
  a name of word characters behind its first underscore, up to \<^verbatim>\<open>.txt\<close>, it is all that
  stands behind that underscore. Otherwise the result is \<^verbatim>\<open>Unbekannt\<close>.
\<close>

theorem infer_speaker_priority:
  "(case find (\<lambda>kv. sublist (lower (fst kv)) (lower filename)) mapping of
      Some kv \<Rightarrow> infer_speaker filename (str_dict mapping) = Inr (snd kv)
    | None \<Rightarrow>
        (if \<exists>name. dated_shape filename name then
           \<exists>name. infer_speaker filename (str_dict mapping) = Inr name \<and>
                  dated_shape filename name
         else if \<exists>name. loose_shape filename name then
           \<exists>name. infer_speaker filename (str_dict mapping) = Inr name \<and>
                  loose_shape filename name
         else infer_speaker filename (str_dict mapping) = Inr ''Unbekannt'')) \<and>
   (find (\<lambda>kv. sublist (lower (fst kv)) (lower filename)) mapping = None \<and>
    filename = y @ ''-'' @ m @ ''-'' @ d @ ''_'' @ run @ ''_'' @ name @ ''.txt'' \<and>
    length y = 4 \<and> length m = 2 \<and> length d = 2 \<and>
    list_all is_digit y \<and> list_all is_digit m \<and> list_all is_digit d \<and>
    run \<noteq> [] \<and> list_all (\<lambda>c. is_digit c \<or> c = CHR ''-'') run \<and>
    name \<noteq> [] \<and> CHR 0x0A \<notin> set name \<longrightarrow>
      infer_speaker filename (str_dict mapping) = Inr name) \<and>
   (find (\<lambda>kv. sublist (lower (fst kv)) (lower filename)) mapping = None \<and>
    \<not> (\<exists>n. dated_shape filename n) \<and>
    filename = pre @ ''_'' @ name @ ''.txt'' \<and> CHR ''_'' \<notin> set pre \<and>
    name \<noteq> [] \<and> list_all is_word name \<longrightarrow>
      infer_speaker filename (str_dict mapping) = Inr name)"
proof (intro conjI impI)
  show "case find (\<lambda>kv. sublist (lower (fst kv)) (lower filename)) mapping of
      Some kv \<Rightarrow> infer_speaker filename (str_dict mapping) = Inr (snd kv)
    | None \<Rightarrow>
        (if \<exists>name. dated_shape filename name then
           \<exists>name. infer_speaker filename (str_dict mapping) = Inr name \<and>
                  dated_shape filename name
         else if \<exists>name. loose_shape filename name then
           \<exists>name. infer_speaker filename (str_dict mapping) = Inr name \<and>
                  loose_shape filename name
         else infer_speaker filename (str_dict mapping) = Inr ''Unbekannt'')"
  proof (cases "find (\<lambda>kv. sublist (lower (fst kv)) (lower filename)) mapping")
    case (Some kv)
    then show ?thesis by (simp add: infer_speaker_found)
  next
    case None
    note i = infer_speaker_patterns [OF None]
    show ?thesis
    proof (cases "re_search dated_name_pattern filename")
      case (Some n)
      then have "dated_shape filename n" by (rule dated_search_Some)
      with Some i None show ?thesis by auto
    next
      case dn: None
      then have nd: "\<not> (\<exists>name. dated_shape filename name)"
        using dated_search_complete by blast
      show ?thesis
      proof (cases "re_search loose_name_pattern filename")
        case (Some n)
        then have "loose_shape filename n" by (rule loose_search_Some)
        with Some dn i None nd show ?thesis by auto
      next
        case ln: None
        then have "\<not> (\<exists>name. loose_shape filename name)"
          using loose_search_complete by blast
        with ln dn i None nd show ?thesis by simp
      qed
    qed
  qed
next
  assume a: "find (\<lambda>kv. sublist (lower (fst kv)) (lower filename)) mapping = None \<and>
    filename = y @ ''-'' @ m @ ''-'' @ d @ ''_'' @ run @ ''_'' @ name @ ''.txt'' \<and>
    length y = 4 \<and> length m = 2 \<and> length d = 2 \<and>
    list_all is_digit y \<and> list_all is_digit m \<and> list_all is_digit d \<and>
    run \<noteq> [] \<and> list_all (\<lambda>c. is_digit c \<or> c = CHR ''-'') run \<and>
    name \<noteq> [] \<and> CHR 0x0A \<notin> set name"
  then have f0: "find (\<lambda>kv. sublist (lower (fst kv)) (lower filename)) mapping = None" by blast
  note i = infer_speaker_patterns [OF f0]
  from a have "re_search dated_name_pattern filename = Some name"
    using dated_search_exact [of y m d run name] by simp
  with i show "infer_speaker filename (str_dict mapping) = Inr name" by simp
next
  assume a: "find (\<lambda>kv. sublist (lower (fst kv)) (lower filename)) mapping = None \<and>
    \<not> (\<exists>n. dated_shape filename n) \<and>
    filename = pre @ ''_'' @ name @ ''.txt'' \<and> CHR ''_'' \<notin> set pre \<and>
    name \<noteq> [] \<and> list_all is_word name"
  then have f0: "find (\<lambda>kv. sublist (lower (fst kv)) (lower filename)) mapping = None" by blast
  note i = infer_speaker_patterns [OF f0]
  from a have l: "re_search loose_name_pattern filename = Some name"
    using loose_search_exact [of pre name] by simp
  have "re_search dated_name_pattern filename = None"
  proof (cases "re_search dated_name_pattern filename")
    case None
    then show ?thesis .
  next
    case (Some n)
    then have "dated_shape filename n" by (rule dated_search_Some)
    with a show ?thesis by blast
  qed
  with i l show "infer_speaker filename (str_dict mapping) = Inr name" by simp
qed

text \<open>
  The sixth scenario, with the key in lower and in upper case; the first scenario; a name
  of the loose shape; a name of neither shape.
\<close>

lemma find_max_key:
  "find (\<lambda>kv. sublist (lower (fst kv)) (lower max_name)) [(''max'', ''Maximilian'')] =
     Some (''max'', ''Maximilian'')"
  by code_simp

lemma find_upper_key:
  "find (\<lambda>kv. sublist (lower (fst kv)) (lower max_name)) [(''MAX'', ''Maximilian'')] =
     Some (''MAX'', ''Maximilian'')"
  by code_simp

lemma no_dated_voice_note: "re_search dated_name_pattern voice_note = None"
  by code_simp

lemma no_dated_memo: "re_search dated_name_pattern ''memo.txt'' = None"
  by code_simp

lemma no_loose_memo: "re_search loose_name_pattern ''memo.txt'' = None"
  by code_simp

theorem infer_speaker_priority_witness:
  "infer_speaker max_name (str_dict [(''max'', ''Maximilian'')]) = Inr ''Maximilian'' \<and>
   infer_speaker max_name (str_dict [(''MAX'', ''Maximilian'')]) = Inr ''Maximilian'' \<and>
   infer_speaker max_name (str_dict []) = Inr ''Max'' \<and>
   infer_speaker voice_note (str_dict []) = Inr ''note'' \<and>
   infer_speaker ''memo.txt'' (str_dict []) = Inr ''Unbekannt''"
proof -
  have a: "infer_speaker max_name (str_dict [(''max'', ''Maximilian'')]) = Inr ''Maximilian''"
    using infer_speaker_priority [where filename = max_name and mapping = "[(''max'', ''Maximilian'')]",
        THEN conjunct1]
    unfolding find_max_key by simp
  have a': "infer_speaker max_name (str_dict [(''MAX'', ''Maximilian'')]) = Inr ''Maximilian''"
    using infer_speaker_priority [where filename = max_name and mapping = "[(''MAX'', ''Maximilian'')]",
        THEN conjunct1]
    unfolding find_upper_key by simp
  have "find (\<lambda>kv. sublist (lower (fst kv)) (lower max_name)) [] = None \<and>
    max_name = ''2024'' @ ''-'' @ ''06'' @ ''-'' @ ''28'' @ ''_'' @ ''14-05-30'' @ ''_'' @ ''Max'' @ ''.txt'' \<and>
    length ''2024'' = 4 \<and> length ''06'' = 2 \<and> length ''28'' = 2 \<and>
    list_all is_digit ''2024'' \<and> list_all is_digit ''06'' \<and> list_all is_digit ''28'' \<and>
    ''14-05-30'' \<noteq> [] \<and> list_all (\<lambda>c. is_digit c \<or> c = CHR ''-'') ''14-05-30'' \<and>
    ''Max'' \<noteq> [] \<and> CHR 0x0A \<notin> set ''Max''"
    by (simp add: max_name_def is_digit_def)
  then have b: "infer_speaker max_name (str_dict []) = Inr ''Max''"
    using infer_speaker_priority [where filename = max_name and mapping = "[]"
        and y = "''2024''" and m = "''06''" and d = "''28''" and run = "''14-05-30''"
        and name = "''Max''", THEN conjunct2, THEN conjunct1]
    by blast
  have nd: "\<not> (\<exists>n. dated_shape voice_note n)"
    using dated_search_complete no_dated_voice_note by blast
  have "find (\<lambda>kv. sublist (lower (fst kv)) (lower voice_note)) [] = None \<and>
    \<not> (\<exists>n. dated_shape voice_note n) \<and>
    voice_note = ''voice'' @ ''_'' @ ''note'' @ ''.txt'' \<and> CHR ''_'' \<notin> set ''voice'' \<and>
    ''note'' \<noteq> [] \<and> list_all is_word ''note''"
    using nd by (simp add: voice_note_def is_word_def)
  then have c: "infer_speaker voice_note (str_dict []) = Inr ''note''"
    using infer_speaker_priority [where filename = voice_note and mapping = "[]"
        and pre = "''voice''" and name = "''note''", THEN conjunct2, THEN conjunct2]
    by blast
  have md: "\<not> (\<exists>n. dated_shape ''memo.txt'' n)"
    using dated_search_complete no_dated_memo by blast
  have ml: "\<not> (\<exists>n. loose_shape ''memo.txt'' n)"
    using loose_search_complete no_loose_memo by blast
  have d: "infer_speaker ''memo.txt'' (str_dict []) = Inr ''Unbekannt''"
    using infer_speaker_priority [where filename = "''memo.txt''" and mapping = "[]",
        THEN conjunct1] md ml
    by simp
  from a a' b c d show ?thesis by (intro conjI)
qed

text \<open>
  Against C9 as stated: both names are a date, a middle part and a name before
  \<^verbatim>\<open>.txt\<close>, and the result is not the trailing segment \<^verbatim>\<open>Max\<close> or \<^verbatim>\<open>Mustermann\<close>. In
  the first the middle part is not of digits and hyphens, so the loose pattern decides,
  and it takes all word characters behind the first underscore; in the second the dated
  pattern takes all that stands behind the time.
\<close>

theorem trailing_segment_counterexample:
  "infer_speaker ''2024-06-28_voice_Max.txt'' (str_dict []) = Inr ''voice_Max'' \<and>
   infer_speaker ''2024-06-28_14-05-30_Max_Mustermann.txt'' (str_dict []) =
     Inr ''Max_Mustermann''"
  by code_simp

end
